theory Spec2Isabelle
  imports Main "HOL-Library.Monad_Syntax"
begin

section \<open>mu\_json: a table-driven JSON tokenizer and its token navigation\<close>

text \<open>
  The development embeds \<^verbatim>\<open>src/mu_json.c\<close> (with the parts of \<^verbatim>\<open>mu_str.c\<close> it calls).

  Conventions of the embedding.
  \<^item> Undefined behaviour of the C program (a read outside the state transition table, a
    dereference of a null token pointer, a read of a token record that was never written)
    is the value \<open>None\<close> of the \<open>option\<close> monad; every function that may run into it
    returns an \<open>option\<close>.
  \<^item> A token pointer is \<open>NULL\<close> or \<open>Ptr i\<close>, the address of \<open>tokens[i]\<close>.
    The token store is the list of the records written so far, so \<open>token_count\<close> is the
    length of that list; a record with index outside the list is unwritten memory.
  \<^item> A \<open>mu_str_t\<close> is a view: the offset of its first byte in the input buffer, and its length.
  \<^item> C's \<open>int\<close> is modelled by \<open>int\<close>. In \<open>parse\<close> the fields \<open>char_pos\<close>,
    \<open>token_count\<close> and \<open>depth\<close> never exceed the input length plus one in absolute value,
    so no \<open>int\<close> overflows and every conversion between \<open>size_t\<close> and \<open>int\<close> keeps its
    value for an input below \<open>INT_MAX\<close> bytes. For an input of \<open>INT_MAX\<close> bytes or more
    \<open>parser.char_pos += 1\<close> overflows unless an error ends the loop before, and
    \<open>mu_str_slice\<close> converts lengths that an \<open>int\<close> does not hold; \<open>parse\<close> is left
    undefined (\<open>None\<close>) on such an input. The narrowing of the depth to the \<open>int16_t\<close>
    field of a token is written out.
\<close>

subsection \<open>Character classes, states and actions\<close>

text \<open>\<open>#define __ (uint8_t) - 1\<close>: the cast binds first, so the universal error code is 255.\<close>

definition ERR :: int where "ERR = 255"

definition C_SPACE :: int where "C_SPACE = 0"
definition C_WHITE :: int where "C_WHITE = 1"
definition C_LCURB :: int where "C_LCURB = 2"
definition C_RCURB :: int where "C_RCURB = 3"
definition C_LSQRB :: int where "C_LSQRB = 4"
definition C_RSQRB :: int where "C_RSQRB = 5"
definition C_COLON :: int where "C_COLON = 6"
definition C_COMMA :: int where "C_COMMA = 7"
definition C_QUOTE :: int where "C_QUOTE = 8"
definition C_BACKS :: int where "C_BACKS = 9"
definition C_SLASH :: int where "C_SLASH = 10"
definition C_PLUS :: int where "C_PLUS = 11"
definition C_MINUS :: int where "C_MINUS = 12"
definition C_POINT :: int where "C_POINT = 13"
definition C_ZERO :: int where "C_ZERO = 14"
definition C_DIGIT :: int where "C_DIGIT = 15"
definition C_LOW_A :: int where "C_LOW_A = 16"
definition C_LOW_B :: int where "C_LOW_B = 17"
definition C_LOW_C :: int where "C_LOW_C = 18"
definition C_LOW_D :: int where "C_LOW_D = 19"
definition C_LOW_E :: int where "C_LOW_E = 20"
definition C_LOW_F :: int where "C_LOW_F = 21"
definition C_LOW_L :: int where "C_LOW_L = 22"
definition C_LOW_N :: int where "C_LOW_N = 23"
definition C_LOW_R :: int where "C_LOW_R = 24"
definition C_LOW_S :: int where "C_LOW_S = 25"
definition C_LOW_T :: int where "C_LOW_T = 26"
definition C_LOW_U :: int where "C_LOW_U = 27"
definition C_ABCDF :: int where "C_ABCDF = 28"
definition C_E :: int where "C_E = 29"
definition C_ETC :: int where "C_ETC = 30"
definition NR_CLASSES :: int where "NR_CLASSES = 31"

lemmas class_defs =
  C_SPACE_def C_WHITE_def C_LCURB_def C_RCURB_def C_LSQRB_def C_RSQRB_def C_COLON_def C_COMMA_def C_QUOTE_def C_BACKS_def C_SLASH_def C_PLUS_def C_MINUS_def C_POINT_def C_ZERO_def C_DIGIT_def C_LOW_A_def C_LOW_B_def C_LOW_C_def C_LOW_D_def C_LOW_E_def C_LOW_F_def C_LOW_L_def C_LOW_N_def C_LOW_R_def C_LOW_S_def C_LOW_T_def C_LOW_U_def C_ABCDF_def C_E_def C_ETC_def NR_CLASSES_def

definition GO :: int where "GO = 0"
definition OK :: int where "OK = 1"
definition OB :: int where "OB = 2"
definition KE :: int where "KE = 3"
definition CO :: int where "CO = 4"
definition VA :: int where "VA = 5"
definition AR :: int where "AR = 6"
definition ST :: int where "ST = 7"
definition ES :: int where "ES = 8"
definition U1 :: int where "U1 = 9"
definition U2 :: int where "U2 = 10"
definition U3 :: int where "U3 = 11"
definition U4 :: int where "U4 = 12"
definition MI :: int where "MI = 13"
definition ZE :: int where "ZE = 14"
definition IN :: int where "IN = 15"
definition FR :: int where "FR = 16"
definition FS :: int where "FS = 17"
definition E1 :: int where "E1 = 18"
definition E2 :: int where "E2 = 19"
definition E3 :: int where "E3 = 20"
definition T1 :: int where "T1 = 21"
definition T2 :: int where "T2 = 22"
definition T3 :: int where "T3 = 23"
definition F1 :: int where "F1 = 24"
definition F2 :: int where "F2 = 25"
definition F3 :: int where "F3 = 26"
definition F4 :: int where "F4 = 27"
definition N1 :: int where "N1 = 28"
definition N2 :: int where "N2 = 29"
definition N3 :: int where "N3 = 30"
definition NR_STATES :: int where "NR_STATES = 31"
definition Ba :: int where "Ba = 32"
definition Bd :: int where "Bd = 33"
definition Bf :: int where "Bf = 34"
definition Bm :: int where "Bm = 35"
definition Bn :: int where "Bn = 36"
definition Bo :: int where "Bo = 37"
definition Bs :: int where "Bs = 38"
definition Bt :: int where "Bt = 39"
definition Bz :: int where "Bz = 40"
definition Fa :: int where "Fa = 41"
definition Fo :: int where "Fo = 42"
definition Pl :: int where "Pl = 43"
definition Pm :: int where "Pm = 44"
definition Ps :: int where "Ps = 45"
definition Pq :: int where "Pq = 46"

lemmas state_defs =
  GO_def OK_def OB_def KE_def CO_def VA_def AR_def ST_def ES_def U1_def U2_def U3_def U4_def MI_def ZE_def IN_def FR_def FS_def E1_def E2_def E3_def T1_def T2_def T3_def F1_def F2_def F3_def F4_def N1_def N2_def N3_def NR_STATES_def

lemmas action_defs =
  Ba_def Bd_def Bf_def Bm_def Bn_def Bo_def Bs_def Bt_def Bz_def Fa_def Fo_def Pl_def Pm_def Ps_def Pq_def

subsection \<open>The two tables\<close>

definition ascii_classes :: "int list" where
  "ascii_classes = [
   ERR, ERR, ERR, ERR, ERR, ERR, ERR, ERR,
   ERR, C_WHITE, C_WHITE, ERR, ERR, C_WHITE, ERR, ERR,
   ERR, ERR, ERR, ERR, ERR, ERR, ERR, ERR,
   ERR, ERR, ERR, ERR, ERR, ERR, ERR, ERR,
   C_SPACE, C_ETC, C_QUOTE, C_ETC, C_ETC, C_ETC, C_ETC, C_ETC,
   C_ETC, C_ETC, C_ETC, C_PLUS, C_COMMA, C_MINUS, C_POINT, C_SLASH,
   C_ZERO, C_DIGIT, C_DIGIT, C_DIGIT, C_DIGIT, C_DIGIT, C_DIGIT, C_DIGIT,
   C_DIGIT, C_DIGIT, C_COLON, C_ETC, C_ETC, C_ETC, C_ETC, C_ETC,
   C_ETC, C_ABCDF, C_ABCDF, C_ABCDF, C_ABCDF, C_E, C_ABCDF, C_ETC,
   C_ETC, C_ETC, C_ETC, C_ETC, C_ETC, C_ETC, C_ETC, C_ETC,
   C_ETC, C_ETC, C_ETC, C_ETC, C_ETC, C_ETC, C_ETC, C_ETC,
   C_ETC, C_ETC, C_ETC, C_LSQRB, C_BACKS, C_RSQRB, C_ETC, C_ETC,
   C_ETC, C_LOW_A, C_LOW_B, C_LOW_C, C_LOW_D, C_LOW_E, C_LOW_F, C_ETC,
   C_ETC, C_ETC, C_ETC, C_ETC, C_LOW_L, C_ETC, C_LOW_N, C_ETC,
   C_ETC, C_ETC, C_LOW_R, C_LOW_S, C_LOW_T, C_LOW_U, C_ETC, C_ETC,
   C_ETC, C_ETC, C_ETC, C_LCURB, C_ETC, C_RCURB, C_ETC, C_ETC]"

text \<open>One row per state \<open>GO\<close> .. \<open>N3\<close>, one column per class \<open>C_SPACE\<close> .. \<open>C_ETC\<close>.\<close>

definition state_transition_table :: "int list" where
  "state_transition_table = [
   GO,GO,Bo,ERR,Ba,ERR,ERR,ERR,Bs,ERR,ERR,ERR,Bm,ERR,Bz,Bd,ERR,ERR,ERR,ERR,ERR,Bf,ERR,Bn,ERR,ERR,Bt,ERR,ERR,ERR,ERR,
   Ps,Ps,ERR,Fo,ERR,Fa,ERR,Pm,ERR,ERR,ERR,ERR,ERR,ERR,ERR,ERR,ERR,ERR,ERR,ERR,ERR,ERR,ERR,ERR,ERR,ERR,ERR,ERR,ERR,ERR,ERR,
   OB,OB,ERR,Fo,ERR,ERR,ERR,ERR,Bs,ERR,ERR,ERR,ERR,ERR,ERR,ERR,ERR,ERR,ERR,ERR,ERR,ERR,ERR,ERR,ERR,ERR,ERR,ERR,ERR,ERR,ERR,
   KE,KE,ERR,ERR,ERR,ERR,ERR,ERR,Bs,ERR,ERR,ERR,ERR,ERR,ERR,ERR,ERR,ERR,ERR,ERR,ERR,ERR,ERR,ERR,ERR,ERR,ERR,ERR,ERR,ERR,ERR,
   Ps,Ps,ERR,ERR,ERR,ERR,Pl,ERR,ERR,ERR,ERR,ERR,ERR,ERR,ERR,ERR,ERR,ERR,ERR,ERR,ERR,ERR,ERR,ERR,ERR,ERR,ERR,ERR,ERR,ERR,ERR,
   VA,VA,Bo,ERR,Ba,ERR,ERR,ERR,Bs,ERR,ERR,ERR,Bm,ERR,Bz,Bd,ERR,ERR,ERR,ERR,ERR,Bf,ERR,Bn,ERR,ERR,Bt,ERR,ERR,ERR,ERR,
   AR,AR,Bo,ERR,Ba,Fa,ERR,ERR,Bs,ERR,ERR,ERR,Bm,ERR,Bz,Bd,ERR,ERR,ERR,ERR,ERR,Bf,ERR,Bn,ERR,ERR,Bt,ERR,ERR,ERR,ERR,
   ST,ERR,ST,ST,ST,ST,ST,ST,Pq,ES,ST,ST,ST,ST,ST,ST,ST,ST,ST,ST,ST,ST,ST,ST,ST,ST,ST,ST,ST,ST,ST,
   ERR,ERR,ERR,ERR,ERR,ERR,ERR,ERR,Bs,ST,ST,ERR,ERR,ERR,ERR,ERR,ERR,ST,ERR,ERR,ERR,ST,ERR,ST,ST,ERR,ST,U1,ERR,ERR,ERR,
   ERR,ERR,ERR,ERR,ERR,ERR,ERR,ERR,ERR,ERR,ERR,ERR,ERR,ERR,U2,U2,U2,U2,U2,U2,U2,U2,ERR,ERR,ERR,ERR,ERR,ERR,U2,U2,ERR,
   ERR,ERR,ERR,ERR,ERR,ERR,ERR,ERR,ERR,ERR,ERR,ERR,ERR,ERR,U3,U3,U3,U3,U3,U3,U3,U3,ERR,ERR,ERR,ERR,ERR,ERR,U3,U3,ERR,
   ERR,ERR,ERR,ERR,ERR,ERR,ERR,ERR,ERR,ERR,ERR,ERR,ERR,ERR,U4,U4,U4,U4,U4,U4,U4,U4,ERR,ERR,ERR,ERR,ERR,ERR,U4,U4,ERR,
   ERR,ERR,ERR,ERR,ERR,ERR,ERR,ERR,ERR,ERR,ERR,ERR,ERR,ERR,ST,ST,ST,ST,ST,ST,ST,ST,ERR,ERR,ERR,ERR,ERR,ERR,ST,ST,ERR,
   ERR,ERR,ERR,ERR,ERR,ERR,ERR,ERR,ERR,ERR,ERR,ERR,ERR,ERR,ZE,IN,ERR,ERR,ERR,ERR,ERR,ERR,ERR,ERR,ERR,ERR,ERR,ERR,ERR,ERR,ERR,
   OK,OK,ERR,Fo,ERR,Fa,ERR,Pm,ERR,ERR,ERR,ERR,ERR,FR,ERR,ERR,ERR,ERR,ERR,ERR,E1,ERR,ERR,ERR,ERR,ERR,ERR,ERR,ERR,E1,ERR,
   Ps,Ps,ERR,Fo,ERR,Fa,ERR,Pm,ERR,ERR,ERR,ERR,ERR,FR,IN,IN,ERR,ERR,ERR,ERR,E1,ERR,ERR,ERR,ERR,ERR,ERR,ERR,ERR,E1,ERR,
   ERR,ERR,ERR,ERR,ERR,ERR,ERR,ERR,ERR,ERR,ERR,ERR,ERR,ERR,FS,FS,ERR,ERR,ERR,ERR,ERR,ERR,ERR,ERR,ERR,ERR,ERR,ERR,ERR,ERR,ERR,
   OK,OK,ERR,Fo,ERR,Fa,ERR,Pm,ERR,ERR,ERR,ERR,ERR,ERR,FS,FS,ERR,ERR,ERR,ERR,E1,ERR,ERR,ERR,ERR,ERR,ERR,ERR,ERR,E1,ERR,
   ERR,ERR,ERR,ERR,ERR,ERR,ERR,ERR,ERR,ERR,ERR,E2,E2,ERR,E3,E3,ERR,ERR,ERR,ERR,ERR,ERR,ERR,ERR,ERR,ERR,ERR,ERR,ERR,ERR,ERR,
   ERR,ERR,ERR,ERR,ERR,ERR,ERR,ERR,ERR,ERR,ERR,ERR,ERR,ERR,E3,E3,ERR,ERR,ERR,ERR,ERR,ERR,ERR,ERR,ERR,ERR,ERR,ERR,ERR,ERR,ERR,
   OK,OK,ERR,Fo,ERR,Fa,ERR,Pm,ERR,ERR,ERR,ERR,ERR,ERR,E3,E3,ERR,ERR,ERR,ERR,ERR,ERR,ERR,ERR,ERR,ERR,ERR,ERR,ERR,ERR,ERR,
   ERR,ERR,ERR,ERR,ERR,ERR,ERR,ERR,ERR,ERR,ERR,ERR,ERR,ERR,ERR,ERR,ERR,ERR,ERR,ERR,ERR,ERR,ERR,ERR,T2,ERR,ERR,ERR,ERR,ERR,ERR,
   ERR,ERR,ERR,ERR,ERR,ERR,ERR,ERR,ERR,ERR,ERR,ERR,ERR,ERR,ERR,ERR,ERR,ERR,ERR,ERR,ERR,ERR,ERR,ERR,ERR,ERR,ERR,T3,ERR,ERR,ERR,
   ERR,ERR,ERR,ERR,ERR,ERR,ERR,ERR,ERR,ERR,ERR,ERR,ERR,ERR,ERR,ERR,ERR,ERR,ERR,ERR,OK,ERR,ERR,ERR,ERR,ERR,ERR,ERR,ERR,ERR,ERR,
   ERR,ERR,ERR,ERR,ERR,ERR,ERR,ERR,ERR,ERR,ERR,ERR,ERR,ERR,ERR,ERR,F2,ERR,ERR,ERR,ERR,ERR,ERR,ERR,ERR,ERR,ERR,ERR,ERR,ERR,ERR,
   ERR,ERR,ERR,ERR,ERR,ERR,ERR,ERR,ERR,ERR,ERR,ERR,ERR,ERR,ERR,ERR,ERR,ERR,ERR,ERR,ERR,ERR,F3,ERR,ERR,ERR,ERR,ERR,ERR,ERR,ERR,
   ERR,ERR,ERR,ERR,ERR,ERR,ERR,ERR,ERR,ERR,ERR,ERR,ERR,ERR,ERR,ERR,ERR,ERR,ERR,ERR,ERR,ERR,ERR,ERR,ERR,F4,ERR,ERR,ERR,ERR,ERR,
   ERR,ERR,ERR,ERR,ERR,ERR,ERR,ERR,ERR,ERR,ERR,ERR,ERR,ERR,ERR,ERR,ERR,ERR,ERR,ERR,OK,ERR,ERR,ERR,ERR,ERR,ERR,ERR,ERR,ERR,ERR,
   ERR,ERR,ERR,ERR,ERR,ERR,ERR,ERR,ERR,ERR,ERR,ERR,ERR,ERR,ERR,ERR,ERR,ERR,ERR,ERR,ERR,ERR,ERR,ERR,ERR,ERR,ERR,N2,ERR,ERR,ERR,
   ERR,ERR,ERR,ERR,ERR,ERR,ERR,ERR,ERR,ERR,ERR,ERR,ERR,ERR,ERR,ERR,ERR,ERR,ERR,ERR,ERR,ERR,N3,ERR,ERR,ERR,ERR,ERR,ERR,ERR,ERR,
   ERR,ERR,ERR,ERR,ERR,ERR,ERR,ERR,ERR,ERR,ERR,ERR,ERR,ERR,ERR,ERR,ERR,ERR,ERR,ERR,ERR,ERR,OK,ERR,ERR,ERR,ERR,ERR,ERR,ERR,ERR]"

subsection \<open>Byte views: the part of \<^verbatim>\<open>mu_str.c\<close> the parser uses\<close>

text \<open>\<open>buf\<close> is the offset of the first byte of the view in the buffer that holds the input;
  \<open>str_length\<close> is the field \<open>length\<close> of \<open>mu_str_t\<close>.\<close>

record mu_str =
  buf :: int
  str_length :: nat

definition INT_MAX :: int where "INT_MAX = 2147483647"

definition MU_STR_END :: int where "MU_STR_END = INT_MAX"

definition mu_str_init :: "int \<Rightarrow> nat \<Rightarrow> mu_str" where
  "mu_str_init b n = \<lparr>buf = b, str_length = n\<rparr>"

definition mu_str_length :: "mu_str \<Rightarrow> nat" where
  "mu_str_length str = str_length str"

text \<open>\<open>mu_str_get_byte\<close> returns \<open>false\<close> (here \<open>None\<close>) when the index is outside the view.
  The view is assumed to lie inside the buffer \<open>mem\<close>, as it does in \<open>parse\<close>.\<close>

definition mu_str_get_byte :: "string \<Rightarrow> mu_str \<Rightarrow> int \<Rightarrow> char option" where
  "mu_str_get_byte mem str index =
     (if index < 0 \<or> index \<ge> int (str_length str) then None
      else Some (mem ! nat (buf str + index)))"

definition mu_str_slice :: "mu_str \<Rightarrow> int \<Rightarrow> int \<Rightarrow> mu_str" where
  "mu_str_slice src start stop =
     (let n = int (str_length src);
          start1 = (if start < 0 then n + start
                    else if start > n \<or> start = MU_STR_END then n else start);
          stop1 = (if stop < 0 then n + stop
                   else if stop \<ge> n \<or> stop = MU_STR_END then n else stop);
          stop2 = (if stop1 < start1 then start1 else stop1)
      in mu_str_init (buf src + start1) (nat (stop2 - start1)))"

text \<open>The bytes a view shows.\<close>

definition mu_str_bytes :: "string \<Rightarrow> mu_str \<Rightarrow> string" where
  "mu_str_bytes mem str = take (str_length str) (drop (nat (buf str)) mem)"

subsection \<open>Tokens\<close>

datatype mu_json_token_type =
    MU_JSON_TOKEN_TYPE_UNKNOWN
  | MU_JSON_TOKEN_TYPE_ARRAY
  | MU_JSON_TOKEN_TYPE_OBJECT
  | MU_JSON_TOKEN_TYPE_STRING
  | MU_JSON_TOKEN_TYPE_NUMBER
  | MU_JSON_TOKEN_TYPE_INTEGER
  | MU_JSON_TOKEN_TYPE_TRUE
  | MU_JSON_TOKEN_TYPE_FALSE
  | MU_JSON_TOKEN_TYPE_NULL

datatype mu_json_token_flags =
    MU_JSON_TOKEN_FLAG_IS_FIRST
  | MU_JSON_TOKEN_FLAG_IS_LAST
  | MU_JSON_TOKEN_FLAG_IS_SEALED

text \<open>The flag byte of a token is the set of the flags whose bit is set.\<close>

record mu_json_token =
  json :: mu_str
  type :: mu_json_token_type
  flags :: "mu_json_token_flags set"
  depth :: int

definition MU_JSON_ERR_NONE :: int where "MU_JSON_ERR_NONE = 0"
definition MU_JSON_ERR_BAD_FORMAT :: int where "MU_JSON_ERR_BAD_FORMAT = - 1"
definition MU_JSON_ERR_NO_TOKENS :: int where "MU_JSON_ERR_NO_TOKENS = - 2"
definition MU_JSON_ERR_INCOMPLETE :: int where "MU_JSON_ERR_INCOMPLETE = - 3"

lemmas err_defs =
  MU_JSON_ERR_NONE_def MU_JSON_ERR_BAD_FORMAT_def MU_JSON_ERR_NO_TOKENS_def
  MU_JSON_ERR_INCOMPLETE_def

text \<open>The conversion of an \<open>int\<close> to \<open>int16_t\<close> (\<open>token->depth = parser->depth\<close>).\<close>

definition int16_of_int :: "int \<Rightarrow> int" where
  "int16_of_int x = (x + 32768) mod 65536 - 32768"

datatype tokptr = NULL | Ptr int

text \<open>Reading the record a pointer designates (\<open>token->...\<close>): undefined for the null
  pointer and outside the written records.\<close>

fun deref :: "mu_json_token list \<Rightarrow> tokptr \<Rightarrow> mu_json_token option" where
  "deref ts NULL = None"
| "deref ts (Ptr i) = (if 0 \<le> i \<and> i < int (length ts) then Some (ts ! nat i) else None)"

definition is_container :: "mu_json_token \<Rightarrow> bool" where
  "is_container token \<longleftrightarrow>
     type token = MU_JSON_TOKEN_TYPE_ARRAY \<or> type token = MU_JSON_TOKEN_TYPE_OBJECT"

definition token_is_sealed :: "mu_json_token \<Rightarrow> bool" where
  "token_is_sealed token \<longleftrightarrow> MU_JSON_TOKEN_FLAG_IS_SEALED \<in> flags token"

definition seal_token :: "mu_json_token \<Rightarrow> mu_json_token" where
  "seal_token token = token\<lparr>flags := insert MU_JSON_TOKEN_FLAG_IS_SEALED (flags token)\<rparr>"

definition token_is_first :: "mu_json_token \<Rightarrow> bool" where
  "token_is_first token \<longleftrightarrow> MU_JSON_TOKEN_FLAG_IS_FIRST \<in> flags token"

definition set_is_first :: "mu_json_token \<Rightarrow> mu_json_token" where
  "set_is_first token = token\<lparr>flags := insert MU_JSON_TOKEN_FLAG_IS_FIRST (flags token)\<rparr>"

definition token_is_last :: "mu_json_token \<Rightarrow> bool" where
  "token_is_last token \<longleftrightarrow> MU_JSON_TOKEN_FLAG_IS_LAST \<in> flags token"

definition set_is_last :: "mu_json_token \<Rightarrow> mu_json_token" where
  "set_is_last token = token\<lparr>flags := insert MU_JSON_TOKEN_FLAG_IS_LAST (flags token)\<rparr>"

subsection \<open>Accessors\<close>

text \<open>\<open>mu_json_token_slice\<close> returns the address of the token's view, or \<open>NULL\<close>
  (the inner \<open>None\<close>); the address is represented by the view it points to.\<close>

definition mu_json_token_slice :: "mu_json_token list \<Rightarrow> tokptr \<Rightarrow> mu_str option option" where
  "mu_json_token_slice ts token =
     (if token = NULL then Some None
      else do { t \<leftarrow> deref ts token; Some (Some (json t)) })"

definition mu_json_token_type :: "mu_json_token list \<Rightarrow> tokptr \<Rightarrow> mu_json_token_type option" where
  "mu_json_token_type ts token =
     (if token = NULL then Some MU_JSON_TOKEN_TYPE_UNKNOWN
      else do { t \<leftarrow> deref ts token; Some (type t) })"

definition mu_json_token_depth :: "mu_json_token list \<Rightarrow> tokptr \<Rightarrow> int option" where
  "mu_json_token_depth ts token =
     (if token = NULL then Some (- 1)
      else do { t \<leftarrow> deref ts token; Some (depth t) })"

definition mu_json_token_is_first :: "mu_json_token list \<Rightarrow> tokptr \<Rightarrow> bool option" where
  "mu_json_token_is_first ts token =
     (if token = NULL then Some False
      else do { t \<leftarrow> deref ts token; Some (token_is_first t) })"

definition mu_json_token_is_last :: "mu_json_token list \<Rightarrow> tokptr \<Rightarrow> bool option" where
  "mu_json_token_is_last ts token =
     (if token = NULL then Some False
      else do { t \<leftarrow> deref ts token; Some (token_is_last t) })"

subsection \<open>Navigation\<close>

definition mu_json_token_prev :: "mu_json_token list \<Rightarrow> tokptr \<Rightarrow> tokptr option" where
  "mu_json_token_prev ts token =
     (case token of NULL \<Rightarrow> Some NULL
      | Ptr i \<Rightarrow> do { t \<leftarrow> deref ts token;
                      if token_is_first t then Some NULL else Some (Ptr (i - 1)) })"

definition mu_json_token_next :: "mu_json_token list \<Rightarrow> tokptr \<Rightarrow> tokptr option" where
  "mu_json_token_next ts token =
     (case token of NULL \<Rightarrow> Some NULL
      | Ptr i \<Rightarrow> do { t \<leftarrow> deref ts token;
                      if token_is_last t then Some NULL else Some (Ptr (i + 1)) })"

text \<open>The measures of the scanning loops: a backward scan ends at index 0 at the latest
  (the read before the store is undefined), a forward scan at the last written record.\<close>

fun back_measure :: "tokptr \<Rightarrow> nat" where
  "back_measure NULL = 0"
| "back_measure (Ptr i) = nat (i + 1) + 1"

fun forw_measure :: "mu_json_token list \<Rightarrow> tokptr \<Rightarrow> nat" where
  "forw_measure ts NULL = 0"
| "forw_measure ts (Ptr i) = nat (int (length ts) - i) + 1"

text \<open>\<open>while (!token_is_first(token)) token = mu_json_token_prev(token);\<close>
  The test dereferences \<open>token\<close>, so a null pointer there is undefined.\<close>

function root_loop :: "mu_json_token list \<Rightarrow> tokptr \<Rightarrow> tokptr option" where
  "root_loop ts token =
     do { t \<leftarrow> deref ts token;
          if \<not> token_is_first t
          then do { token' \<leftarrow> mu_json_token_prev ts token; root_loop ts token' }
          else Some token }"
  by pat_completeness auto
termination
  by (relation "measure (\<lambda>(ts, token). back_measure token)")
     (auto simp: mu_json_token_prev_def split: if_splits tokptr.splits)

declare root_loop.simps [simp del]

definition mu_json_token_root :: "mu_json_token list \<Rightarrow> tokptr \<Rightarrow> tokptr option" where
  "mu_json_token_root ts token = (if token = NULL then Some NULL else root_loop ts token)"

text \<open>\<open>do { prev = mu_json_token_prev(prev); }
  while (prev != NULL && mu_json_token_depth(prev) >= depth);\<close>\<close>

function parent_loop :: "mu_json_token list \<Rightarrow> int \<Rightarrow> tokptr \<Rightarrow> tokptr option" where
  "parent_loop ts d prev =
     do { prev' \<leftarrow> mu_json_token_prev ts prev;
          if prev' \<noteq> NULL
          then do { d' \<leftarrow> mu_json_token_depth ts prev';
                    if d' \<ge> d then parent_loop ts d prev' else Some prev' }
          else Some prev' }"
  by pat_completeness auto
termination
  by (relation "measure (\<lambda>(ts, d, prev). back_measure prev)")
     (auto simp: mu_json_token_prev_def mu_json_token_depth_def
           split: if_splits tokptr.splits Option.bind_splits)

declare parent_loop.simps [simp del]

definition mu_json_token_parent :: "mu_json_token list \<Rightarrow> tokptr \<Rightarrow> tokptr option" where
  "mu_json_token_parent ts token =
     (if token = NULL then Some NULL
      else do { d \<leftarrow> mu_json_token_depth ts token; parent_loop ts d token })"

definition mu_json_token_child :: "mu_json_token list \<Rightarrow> tokptr \<Rightarrow> tokptr option" where
  "mu_json_token_child ts token =
     (if token = NULL then Some NULL
      else do { d \<leftarrow> mu_json_token_depth ts token;
                next \<leftarrow> mu_json_token_next ts token;
                dn \<leftarrow> mu_json_token_depth ts next;
                if dn > d then Some next else Some NULL })"

function prev_sibling_loop :: "mu_json_token list \<Rightarrow> tokptr \<Rightarrow> tokptr \<Rightarrow> tokptr option" where
  "prev_sibling_loop ts token prev =
     (if prev = NULL then Some NULL
      else do { dp \<leftarrow> mu_json_token_depth ts prev;
                dt \<leftarrow> mu_json_token_depth ts token;
                if dp < dt then Some NULL
                else if dp = dt then Some prev
                else do { prev' \<leftarrow> mu_json_token_prev ts prev;
                          prev_sibling_loop ts token prev' } })"
  by pat_completeness auto
termination
  by (relation "measure (\<lambda>(ts, token, prev). back_measure prev)")
     (auto simp: mu_json_token_prev_def mu_json_token_depth_def
           split: if_splits tokptr.splits Option.bind_splits)

declare prev_sibling_loop.simps [simp del]

definition mu_json_token_prev_sibling :: "mu_json_token list \<Rightarrow> tokptr \<Rightarrow> tokptr option" where
  "mu_json_token_prev_sibling ts token =
     (if token = NULL then Some NULL
      else do { prev \<leftarrow> mu_json_token_prev ts token;
                prev_sibling_loop ts token prev })"

function next_sibling_loop :: "mu_json_token list \<Rightarrow> tokptr \<Rightarrow> tokptr \<Rightarrow> tokptr option" where
  "next_sibling_loop ts token next =
     (if next = NULL then Some NULL
      else do { dn \<leftarrow> mu_json_token_depth ts next;
                dt \<leftarrow> mu_json_token_depth ts token;
                if dn < dt then Some NULL
                else if dn = dt then Some next
                else do { next' \<leftarrow> mu_json_token_next ts next;
                          next_sibling_loop ts token next' } })"
  by pat_completeness auto
termination
  by (relation "measure (\<lambda>(ts, token, next). forw_measure ts next)")
     (auto simp: mu_json_token_next_def mu_json_token_depth_def
           split: if_splits tokptr.splits Option.bind_splits)

declare next_sibling_loop.simps [simp del]

definition mu_json_token_next_sibling :: "mu_json_token list \<Rightarrow> tokptr \<Rightarrow> tokptr option" where
  "mu_json_token_next_sibling ts token =
     (if token = NULL then Some NULL
      else do { next \<leftarrow> mu_json_token_next ts token;
                next_sibling_loop ts token next })"


subsection \<open>The parser\<close>

text \<open>\<open>parser_t\<close>. The field \<open>token_count\<close> is the number of records in \<open>p_tokens\<close>.\<close>

record parser =
  p_json :: mu_str
  p_tokens :: "mu_json_token list"
  p_max_tokens :: nat
  p_depth :: int
  p_char_pos :: int
  p_state :: int
  p_error :: int

definition token_count :: "parser \<Rightarrow> int" where
  "token_count p = int (length (p_tokens p))"

definition lookup_state :: "int \<Rightarrow> int \<Rightarrow> int option" where
  "lookup_state state char_class =
     (let k = state * NR_CLASSES + char_class
      in if 0 \<le> k \<and> k < int (length state_transition_table)
         then Some (state_transition_table ! nat k) else None)"

definition classify_char :: "char \<Rightarrow> int" where
  "classify_char ch =
     (if (of_char ch :: nat) \<ge> length ascii_classes then C_ETC
      else ascii_classes ! of_char ch)"

definition set_state :: "parser \<Rightarrow> int \<Rightarrow> parser" where
  "set_state p s = p\<lparr>p_state := s\<rparr>"

definition tos :: "parser \<Rightarrow> tokptr" where
  "tos p = (if token_count p = 0 then NULL else Ptr (token_count p - 1))"

definition begin_token :: "parser \<Rightarrow> mu_json_token_type \<Rightarrow> bool \<times> parser" where
  "begin_token p ty =
     (if token_count p \<ge> int (p_max_tokens p) then (False, p)
      else let token = \<lparr>json = mu_str_slice (p_json p) (p_char_pos p) MU_STR_END,
                         type = ty,
                         flags = (if token_count p + 1 = 1
                                  then {MU_JSON_TOKEN_FLAG_IS_FIRST} else {}),
                         depth = int16_of_int (p_depth p)\<rparr>
           in (True, p\<lparr>p_tokens := p_tokens p @ [token]\<rparr>))"

definition std_alloc :: "parser \<Rightarrow> mu_json_token_type \<Rightarrow> int \<Rightarrow> parser" where
  "std_alloc p ty s =
     (case begin_token p ty of
        (False, p') \<Rightarrow> p'\<lparr>p_error := MU_JSON_ERR_NO_TOKENS\<rparr>
      | (True, p') \<Rightarrow> p'\<lparr>p_state := s\<rparr>)"

definition finish_token :: "parser \<Rightarrow> tokptr \<Rightarrow> bool \<Rightarrow> parser option" where
  "finish_token p token incl_delim =
     (case token of NULL \<Rightarrow> Some p
      | Ptr i \<Rightarrow>
          do { t \<leftarrow> deref (p_tokens p) token;
               if token_is_sealed t then Some p
               else let start_index = int (mu_str_length (p_json p)) - int (mu_str_length (json t));
                        end_index = (if incl_delim then p_char_pos p + 1 else p_char_pos p);
                        t' = seal_token (t\<lparr>json := mu_str_slice (p_json p) start_index end_index\<rparr>)
                    in Some (p\<lparr>p_tokens := (p_tokens p)[nat i := t']\<rparr>) })"

text \<open>The loop of \<open>child_count\<close>: \<open>child\<close> walks the siblings until it is \<open>token\<close>.\<close>

function child_count_loop ::
  "mu_json_token list \<Rightarrow> tokptr \<Rightarrow> int \<Rightarrow> tokptr \<Rightarrow> int option" where
  "child_count_loop ts token count child =
     (if child \<noteq> token
      then do { child' \<leftarrow> mu_json_token_next_sibling ts child;
                if child' = NULL then Some 0
                else child_count_loop ts token (count + 1) child' }
      else Some count)"
  by pat_completeness auto
termination
proof (relation "measure (\<lambda>(ts, token, count, child). forw_measure ts child)")
  show "wf (measure (\<lambda>(ts, token, count, child). forw_measure ts child))"
    by simp
next
  fix ts :: "mu_json_token list" and token child child' :: tokptr and count :: int
  assume sib: "mu_json_token_next_sibling ts child = Some child'" and nn: "child' \<noteq> NULL"
  have loop: "next_sibling_loop ts t n = Some r \<Longrightarrow> r \<noteq> NULL \<Longrightarrow>
                forw_measure ts r \<le> forw_measure ts n" for t n r
  proof (induction ts t n rule: next_sibling_loop.induct)
    case (1 ts token n)
    note unf = "1.prems"(1) [unfolded next_sibling_loop.simps [of ts token n]]
    from unf "1.prems"(2) have nnull: "n \<noteq> NULL" by (auto split: if_splits)
    with unf obtain dn dt where
      dn: "mu_json_token_depth ts n = Some dn" and dt: "mu_json_token_depth ts token = Some dt"
      by (auto split: Option.bind_splits)
    show ?case
    proof (cases "dn \<le> dt")
      case True
      with unf nnull dn dt "1.prems"(2) show ?thesis by (auto split: if_splits)
    next
      case False
      with unf nnull dn dt obtain n' where
        n': "mu_json_token_next ts n = Some n'" and r: "next_sibling_loop ts token n' = Some r"
        by (auto split: Option.bind_splits if_splits)
      from False have "\<not> dn < dt" "dn \<noteq> dt" by auto
      from "1.IH" [OF nnull dn dt this n' r "1.prems"(2)]
      have "forw_measure ts r \<le> forw_measure ts n'" .
      moreover from n' nnull "1.prems"(2) r have "forw_measure ts n' \<le> forw_measure ts n"
        by (cases n) (auto simp: mu_json_token_next_def
                           split: if_splits Option.bind_splits)
      ultimately show ?thesis by simp
    qed
  qed
  from sib nn obtain i n where c: "child = Ptr i" and n: "mu_json_token_next ts child = Some n"
    and r: "next_sibling_loop ts child n = Some child'"
    by (cases child) (auto simp: mu_json_token_next_sibling_def split: if_splits Option.bind_splits)
  from r nn have "n \<noteq> NULL"
    by (subst (asm) next_sibling_loop.simps) (auto split: if_splits)
  with n c have "forw_measure ts n < forw_measure ts child"
    by (auto simp: mu_json_token_next_def split: if_splits Option.bind_splits)
  with loop [OF r nn]
  show "((ts, token, count + 1, child'), (ts, token, count, child))
          \<in> measure (\<lambda>(ts, token, count, child). forw_measure ts child)"
    by simp
qed

declare child_count_loop.simps [simp del]

definition child_count :: "mu_json_token list \<Rightarrow> tokptr \<Rightarrow> tokptr \<Rightarrow> int option" where
  "child_count ts container token =
     (if container = token then Some 0
      else do { child \<leftarrow> mu_json_token_child ts container;
                child_count_loop ts token 1 child })"

text \<open>\<open>(child_count(container, token) & 1) == 0\<close> tests whether the count is even.\<close>

definition select_state ::
  "mu_json_token list \<Rightarrow> tokptr \<Rightarrow> int \<Rightarrow> int \<Rightarrow> int \<Rightarrow> int \<Rightarrow> int option" where
  "select_state ts token not_in_container in_array in_object_key in_object_value =
     do { container \<leftarrow> mu_json_token_parent ts token;
          if token = NULL then Some ERR
          else if container = NULL then Some not_in_container
          else do {
            c \<leftarrow> deref ts container;
            let ty = type c;
            if ty = MU_JSON_TOKEN_TYPE_ARRAY then Some in_array
            else do { n \<leftarrow> child_count ts container token;
                      if n mod 2 = 0 then Some in_object_key else Some in_object_value } } }"

text \<open>The bodies of \<open>case Fa\<close> and \<open>case Fo\<close>, which differ in the container type only.\<close>

definition finish_container :: "parser \<Rightarrow> mu_json_token_type \<Rightarrow> parser option" where
  "finish_container p ty =
     do { let token = tos p;
          tt \<leftarrow> mu_json_token_type (p_tokens p) token;
          p1 \<leftarrow> (if tt \<noteq> ty
                 then do { p' \<leftarrow> finish_token p token False;
                           container \<leftarrow> mu_json_token_parent (p_tokens p') token;
                           finish_token p' container True }
                 else do { t \<leftarrow> deref (p_tokens p) token;
                           if token_is_sealed t
                           then do { container \<leftarrow> mu_json_token_parent (p_tokens p) token;
                                     finish_token p container True }
                           else finish_token p token True });
          Some (set_state (p1\<lparr>p_depth := p_depth p1 - 1\<rparr>) OK) }"

text \<open>The \<open>switch (next_state)\<close> of \<open>parse\<close>.\<close>

definition action :: "int \<Rightarrow> parser \<Rightarrow> parser option" where
  "action next_state p =
     (if next_state = Ba then
        (let p1 = std_alloc p MU_JSON_TOKEN_TYPE_ARRAY AR in Some (p1\<lparr>p_depth := p_depth p1 + 1\<rparr>))
      else if next_state = Bd then Some (std_alloc p MU_JSON_TOKEN_TYPE_NUMBER IN)
      else if next_state = Bf then Some (std_alloc p MU_JSON_TOKEN_TYPE_FALSE F1)
      else if next_state = Bm then Some (std_alloc p MU_JSON_TOKEN_TYPE_NUMBER MI)
      else if next_state = Bn then Some (std_alloc p MU_JSON_TOKEN_TYPE_NULL N1)
      else if next_state = Bo then
        (let p1 = std_alloc p MU_JSON_TOKEN_TYPE_OBJECT OB in Some (p1\<lparr>p_depth := p_depth p1 + 1\<rparr>))
      else if next_state = Bs then Some (std_alloc p MU_JSON_TOKEN_TYPE_STRING ST)
      else if next_state = Bt then Some (std_alloc p MU_JSON_TOKEN_TYPE_TRUE T1)
      else if next_state = Bz then Some (std_alloc p MU_JSON_TOKEN_TYPE_NUMBER ZE)
      else if next_state = Fa then finish_container p MU_JSON_TOKEN_TYPE_ARRAY
      else if next_state = Fo then finish_container p MU_JSON_TOKEN_TYPE_OBJECT
      else if next_state = Pl then
        do { let token = tos p;
             p1 \<leftarrow> finish_token p token False;
             s \<leftarrow> select_state (p_tokens p1) token ERR ERR ERR VA;
             Some (set_state p1 s) }
      else if next_state = Pm then
        do { let token = tos p;
             p1 \<leftarrow> finish_token p token False;
             s \<leftarrow> select_state (p_tokens p1) token ERR VA KE ERR;
             Some (set_state p1 s) }
      else if next_state = Ps then
        do { let token = tos p;
             t \<leftarrow> deref (p_tokens p) token;
             p1 \<leftarrow> (if \<not> is_container t then finish_token p token False else Some p);
             s \<leftarrow> select_state (p_tokens p1) token OK OK OK (p_state p1);
             Some (set_state p1 s) }
      else if next_state = Pq then
        do { let token = tos p;
             p1 \<leftarrow> finish_token p token True;
             s \<leftarrow> select_state (p_tokens p1) token OK OK OK CO;
             Some (set_state p1 s) }
      else Some (p\<lparr>p_error := MU_JSON_ERR_BAD_FORMAT\<rparr>))"

text \<open>One turn of the \<open>while\<close> loop after the character has been classified: the table
  lookup, the transition or the action, and \<open>parser.char_pos += 1\<close>.\<close>

definition iteration :: "int \<Rightarrow> parser \<Rightarrow> parser option" where
  "iteration char_class p =
     do { next_state \<leftarrow> lookup_state (p_state p) char_class;
          p1 \<leftarrow> (if next_state \<ge> 0 \<and> next_state < NR_STATES
                 then Some (set_state p next_state)
                 else action next_state p);
          Some (p1\<lparr>p_char_pos := p_char_pos p1 + 1\<rparr>) }"


text \<open>The \<open>while (!eos)\<close> loop of \<open>parse\<close>. The end of the input is processed as one more
  character of class \<open>C_SPACE\<close>, after which the loop ends.\<close>

function parse_loop :: "string \<Rightarrow> parser \<Rightarrow> parser option" where
  "parse_loop mem p =
     (if p_error p \<noteq> MU_JSON_ERR_NONE then Some p
      else case mu_str_get_byte mem (p_json p) (p_char_pos p) of
             None \<Rightarrow> iteration C_SPACE p
           | Some ch \<Rightarrow>
               (let char_class = classify_char ch
                in if char_class < 0 then Some (p\<lparr>p_error := MU_JSON_ERR_BAD_FORMAT\<rparr>)
                   else do { p' \<leftarrow> iteration char_class p; parse_loop mem p' }))"
  by pat_completeness auto
termination
proof (relation "measure (\<lambda>(mem, p). nat (int (str_length (p_json p)) - p_char_pos p))")
  show "wf (measure (\<lambda>(mem, p). nat (int (str_length (p_json p)) - p_char_pos p)))"
    by simp
next
  fix mem :: string and p p' :: parser and ch :: char and char_class :: int
  assume byte: "mu_str_get_byte mem (p_json p) (p_char_pos p) = Some ch"
    and it: "iteration char_class p = Some p'"
  have fin: "finish_token q t b = Some q' \<Longrightarrow>
               p_json q' = p_json q \<and> p_char_pos q' = p_char_pos q" for q q' t b
    by (auto simp: finish_token_def Let_def split: tokptr.splits Option.bind_splits if_splits)
  have alloc: "p_json (std_alloc q ty s) = p_json q \<and> p_char_pos (std_alloc q ty s) = p_char_pos q"
    for q ty s
    by (simp add: std_alloc_def begin_token_def Let_def)
  have fc: "finish_container q ty = Some q' \<Longrightarrow>
              p_json q' = p_json q \<and> p_char_pos q' = p_char_pos q" for q q' ty
    by (auto simp: finish_container_def set_state_def Let_def
             split: Option.bind_splits if_splits dest!: fin)
  have act: "action ns q = Some q' \<Longrightarrow>
               p_json q' = p_json q \<and> p_char_pos q' = p_char_pos q" for ns q q'
    unfolding action_def
    by (auto simp: set_state_def Let_def alloc split: Option.bind_splits if_splits
             dest!: fin fc)
  from it have "p_json p' = p_json p \<and> p_char_pos p' = p_char_pos p + 1"
    by (auto simp: iteration_def set_state_def split: Option.bind_splits if_splits dest!: act)
  with byte
  show "((mem, p'), (mem, p)) \<in> measure (\<lambda>(mem, p). nat (int (str_length (p_json p)) - p_char_pos p))"
    by (auto simp: mu_str_get_byte_def split: if_splits)
qed

declare parse_loop.simps [simp del]

text \<open>The end of \<open>parse\<close>: the choice of the return value, and on success the marking of
  the last token and the sealing of the root.\<close>

definition endgame :: "parser \<Rightarrow> (int \<times> mu_json_token list) option" where
  "endgame p =
     (if p_error p \<noteq> MU_JSON_ERR_NONE then Some (p_error p, p_tokens p)
      else if p_depth p \<noteq> 0 then Some (MU_JSON_ERR_INCOMPLETE, p_tokens p)
      else if p_state p \<noteq> OK then Some (MU_JSON_ERR_BAD_FORMAT, p_tokens p)
      else do {
        p2 \<leftarrow> (case tos p of NULL \<Rightarrow> Some p
               | Ptr i \<Rightarrow>
                   do { t \<leftarrow> deref (p_tokens p) (tos p);
                        let p1 = p\<lparr>p_tokens := (p_tokens p)[nat i := set_is_last t]\<rparr>;
                        root \<leftarrow> mu_json_token_root (p_tokens p1) (tos p1);
                        finish_token p1 root False });
        Some (token_count p2, p_tokens p2) })"

text \<open>\<open>parse\<close> returns the token count or a negative error code and leaves the records in
  the caller's store; the model returns both. \<open>json_input\<close> is the input buffer, viewed from
  its first byte to its last as \<open>mu_json_parse_buffer\<close> sets it up. The first line is not
  a test of the code: it marks the inputs on which the \<open>int\<close> arithmetic of the code
  overflows.\<close>

definition parse :: "nat \<Rightarrow> string \<Rightarrow> (int \<times> mu_json_token list) option" where
  "parse max_tokens json_input =
     (if int (length json_input) \<ge> INT_MAX then None
      else do { let parser = \<lparr>p_json = mu_str_init 0 (length json_input),
                               p_tokens = [],
                               p_max_tokens = max_tokens,
                               p_depth = 0,
                               p_char_pos = 0,
                               p_state = GO,
                               p_error = MU_JSON_ERR_NONE\<rparr>;
                p \<leftarrow> parse_loop json_input parser;
                endgame p })"


subsection \<open>Notions used to state the properties\<close>

text \<open>What a caller sees of a token: its kind, its depth and the text of its slice.\<close>

definition token_view :: "string \<Rightarrow> mu_json_token \<Rightarrow> mu_json_token_type \<times> int \<times> string" where
  "token_view mem t = (type t, depth t, mu_str_bytes mem (json t))"

text \<open>The parser as \<open>parse\<close> sets it up before the loop.\<close>

definition initial :: "nat \<Rightarrow> string \<Rightarrow> parser" where
  "initial max_tokens json_input =
     \<lparr>p_json = mu_str_init 0 (length json_input), p_tokens = [], p_max_tokens = max_tokens,
      p_depth = 0, p_char_pos = 0, p_state = GO, p_error = MU_JSON_ERR_NONE\<rparr>"

text \<open>The nesting of the input, read from the text alone. A scan of the text is outside a
  string, inside one, or inside one just after a backslash. Outside a string an opening
  bracket or brace raises the level by one and a closing one lowers it; inside a string
  they are ordinary bytes.\<close>

datatype lex = Outside | Inside | Escaped

fun lex_char :: "lex \<times> int \<Rightarrow> char \<Rightarrow> lex \<times> int" where
  "lex_char (Outside, l) ch =
     (if ch = CHR 0x22 then (Inside, l)
      else if ch = CHR ''['' \<or> ch = CHR ''{'' then (Outside, l + 1)
      else if ch = CHR '']'' \<or> ch = CHR ''}'' then (Outside, l - 1)
      else (Outside, l))"
| "lex_char (Inside, l) ch =
     (if ch = CHR 0x22 then (Outside, l)
      else if ch = CHR 0x5C then (Escaped, l)
      else (Inside, l))"
| "lex_char (Escaped, l) ch = (Inside, l)"

text \<open>\<open>scan inp m\<close> is the scan after the first \<open>m\<close> bytes of the input, \<open>level inp m\<close> the
  level there: the number of containers that are open before the byte at position \<open>m\<close>.\<close>

definition scan :: "string \<Rightarrow> nat \<Rightarrow> lex \<times> int" where
  "scan inp m = foldl lex_char (Outside, 0) (take m inp)"

definition level :: "string \<Rightarrow> nat \<Rightarrow> int" where
  "level inp m = snd (scan inp m)"

text \<open>\<open>inside inp a b\<close>: the position \<open>b\<close> lies inside the container that opens at the
  position \<open>a\<close>. From the byte after \<open>a\<close> up to \<open>b\<close> the level has stayed above the level at
  \<open>a\<close>, so the container has not been closed.\<close>

definition inside :: "string \<Rightarrow> nat \<Rightarrow> nat \<Rightarrow> bool" where
  "inside inp a b \<longleftrightarrow> a < b \<and> (\<forall>m \<in> {a<..b}. level inp a < level inp m)"

text \<open>A token is found in the text by the first byte of its slice. \<open>descendant inp ts c d\<close>:
  the token at index \<open>d\<close> of the store begins inside the token at index \<open>c\<close>.\<close>

definition origin :: "mu_json_token \<Rightarrow> nat" where
  "origin t = nat (buf (json t))"

definition descendant :: "string \<Rightarrow> mu_json_token list \<Rightarrow> nat \<Rightarrow> nat \<Rightarrow> bool" where
  "descendant inp ts c d \<longleftrightarrow> inside inp (origin (ts ! c)) (origin (ts ! d))"

text \<open>A pointer a navigation operation may return for a store of \<open>n\<close> tokens: the null
  pointer or the address of one of the tokens.\<close>

definition valid_ptr :: "int \<Rightarrow> tokptr \<Rightarrow> bool" where
  "valid_ptr n r \<longleftrightarrow> (case r of NULL \<Rightarrow> True | Ptr j \<Rightarrow> 0 \<le> j \<and> j < n)"

text \<open>Space, tab, line feed and carriage return.\<close>

definition json_space :: "char set" where
  "json_space = {CHR 0x20, CHR 0x09, CHR 0x0A, CHR 0x0D}"

text \<open>The input of the example programs and of the README, and two small inputs with what
  the code computes for them: the store after parsing \<open>[1,[2],3]\<close>, and the parser when the
  loop has ended on \<open>[]\<close> with capacity 3.\<close>

definition S1 :: string where
  \<open>S1 = '' {"a":111, "b":[222, true], "c":{}}  ''\<close>

definition example_input :: string where
  "example_input = ''[1,[2],3]''"

definition example_store :: "mu_json_token list" where
  "example_store =
     [\<lparr>json = \<lparr>buf = 0, str_length = 9\<rparr>, type = MU_JSON_TOKEN_TYPE_ARRAY,
         flags = {MU_JSON_TOKEN_FLAG_IS_SEALED, MU_JSON_TOKEN_FLAG_IS_FIRST}, depth = 0\<rparr>,
      \<lparr>json = \<lparr>buf = 1, str_length = 1\<rparr>, type = MU_JSON_TOKEN_TYPE_NUMBER,
         flags = {MU_JSON_TOKEN_FLAG_IS_SEALED}, depth = 1\<rparr>,
      \<lparr>json = \<lparr>buf = 3, str_length = 3\<rparr>, type = MU_JSON_TOKEN_TYPE_ARRAY,
         flags = {MU_JSON_TOKEN_FLAG_IS_SEALED}, depth = 1\<rparr>,
      \<lparr>json = \<lparr>buf = 4, str_length = 1\<rparr>, type = MU_JSON_TOKEN_TYPE_NUMBER,
         flags = {MU_JSON_TOKEN_FLAG_IS_SEALED}, depth = 2\<rparr>,
      \<lparr>json = \<lparr>buf = 7, str_length = 1\<rparr>, type = MU_JSON_TOKEN_TYPE_NUMBER,
         flags = {MU_JSON_TOKEN_FLAG_IS_LAST, MU_JSON_TOKEN_FLAG_IS_SEALED}, depth = 1\<rparr>]"

definition empty_array_final :: parser where
  "empty_array_final =
     \<lparr>p_json = \<lparr>buf = 0, str_length = 2\<rparr>,
      p_tokens = [\<lparr>json = \<lparr>buf = 0, str_length = 2\<rparr>, type = MU_JSON_TOKEN_TYPE_ARRAY,
                    flags = {MU_JSON_TOKEN_FLAG_IS_SEALED, MU_JSON_TOKEN_FLAG_IS_FIRST},
                    depth = 0\<rparr>],
      p_max_tokens = 3, p_depth = 0, p_char_pos = 3, p_state = OK,
      p_error = MU_JSON_ERR_NONE\<rparr>"

text \<open>Two more inputs: \<open>n\<close> arrays nested in one another, and an input with the control
  byte 01 inside a string, \<open>["a\<close>, the byte, \<open>[1]]\<close>.\<close>

definition nest :: "nat \<Rightarrow> string" where
  "nest n = replicate n CHR ''['' @ replicate n CHR '']''"

definition control_input :: string where
  "control_input = [CHR ''['', CHR 0x22, CHR ''a'', CHR 0x01, CHR ''['', CHR ''1'', CHR '']'', CHR '']'']"

subsection \<open>Notions used in the proofs\<close>

text \<open>The part of a token that the sealing of a token leaves alone.\<close>

definition shape :: "mu_json_token \<Rightarrow> mu_json_token_type \<times> int \<times> bool \<times> bool" where
  "shape t = (type t, depth t, token_is_first t, token_is_last t)"

text \<open>The record \<open>begin_token\<close> writes.\<close>

definition new_token :: "parser \<Rightarrow> mu_json_token_type \<Rightarrow> mu_json_token" where
  "new_token p ty = \<lparr>json = mu_str_slice (p_json p) (p_char_pos p) MU_STR_END, type = ty,
      flags = (if p_tokens p = [] then {MU_JSON_TOKEN_FLAG_IS_FIRST} else {}),
      depth = int16_of_int (p_depth p)\<rparr>"

text \<open>The same parser with another capacity.\<close>

definition set_max :: "nat \<Rightarrow> parser \<Rightarrow> parser" where
  "set_max b p = p\<lparr>p_max_tokens := b\<rparr>"

text \<open>The actions that begin a token.\<close>

definition is_begin :: "int \<Rightarrow> bool" where
  "is_begin ns \<longleftrightarrow> ns \<in> {Ba, Bd, Bf, Bm, Bn, Bo, Bs, Bt, Bz}"

text \<open>What an action other than these leaves alone.\<close>

definition same_frame :: "parser \<Rightarrow> parser \<Rightarrow> bool" where
  "same_frame p q \<longleftrightarrow> p_json q = p_json p \<and> p_max_tokens q = p_max_tokens p \<and>
     p_char_pos q = p_char_pos p \<and> map shape (p_tokens q) = map shape (p_tokens p)"

text \<open>The flags while the loop runs, and what holds of the parser then.\<close>

definition flags_inv :: "mu_json_token list \<Rightarrow> bool" where
  "flags_inv ts \<longleftrightarrow>
     (\<forall>i < length ts. (token_is_first (ts ! i) \<longleftrightarrow> i = 0) \<and> \<not> token_is_last (ts ! i))"

definition loop_inv :: "parser \<Rightarrow> bool" where
  "loop_inv p \<longleftrightarrow> flags_inv (p_tokens p) \<and> (p_tokens p = [] \<longrightarrow> p_state p = GO) \<and>
     p_error p \<in> {MU_JSON_ERR_NONE, MU_JSON_ERR_BAD_FORMAT, MU_JSON_ERR_NO_TOKENS} \<and>
     length (p_tokens p) \<le> p_max_tokens p"

text \<open>A cell of the row of state \<open>GO\<close>: the state itself, the error code or the begin of a
  token.\<close>

definition go_cell :: "int \<Rightarrow> bool" where
  "go_cell c \<longleftrightarrow> (case lookup_state GO c of None \<Rightarrow> False
                   | Some ns \<Rightarrow> ns = GO \<or> ns = ERR \<or> is_begin ns)"

text \<open>The flags of the store a successful parse leaves: the first token and no other is
  marked first, the last and no other is marked last.\<close>

definition wf_store :: "mu_json_token list \<Rightarrow> bool" where
  "wf_store ts \<longleftrightarrow>
     (\<forall>i < length ts. (token_is_first (ts ! i) \<longleftrightarrow> i = 0) \<and>
                       (token_is_last (ts ! i) \<longleftrightarrow> i + 1 = length ts))"

definition in_store :: "mu_json_token list \<Rightarrow> int \<Rightarrow> bool" where
  "in_store ts k \<longleftrightarrow> 0 \<le> k \<and> k < int (length ts)"

definition dep :: "mu_json_token list \<Rightarrow> int \<Rightarrow> int" where
  "dep ts k = depth (ts ! nat k)"

text \<open>What the scanning loops return, as relations between the start \<open>k\<close> of the scan, the
  depth \<open>d\<close> it compares with, and the result.\<close>

definition parent_spec :: "mu_json_token list \<Rightarrow> int \<Rightarrow> int \<Rightarrow> tokptr \<Rightarrow> bool" where
  "parent_spec ts d k r \<longleftrightarrow>
     (case r of
        NULL \<Rightarrow> \<forall>j. 0 \<le> j \<and> j < k \<longrightarrow> d \<le> dep ts j
      | Ptr j \<Rightarrow> 0 \<le> j \<and> j < k \<and> dep ts j < d \<and> (\<forall>m. j < m \<and> m < k \<longrightarrow> d \<le> dep ts m))"

definition prev_sibling_spec :: "mu_json_token list \<Rightarrow> int \<Rightarrow> int \<Rightarrow> tokptr \<Rightarrow> bool" where
  "prev_sibling_spec ts d k r \<longleftrightarrow>
     (case r of
        NULL \<Rightarrow> (\<forall>j. 0 \<le> j \<and> j \<le> k \<longrightarrow> d < dep ts j) \<or>
                (\<exists>j. 0 \<le> j \<and> j \<le> k \<and> dep ts j < d \<and> (\<forall>m. j < m \<and> m \<le> k \<longrightarrow> d < dep ts m))
      | Ptr j \<Rightarrow> 0 \<le> j \<and> j \<le> k \<and> dep ts j = d \<and> (\<forall>m. j < m \<and> m \<le> k \<longrightarrow> d < dep ts m))"

definition next_sibling_spec :: "mu_json_token list \<Rightarrow> int \<Rightarrow> int \<Rightarrow> tokptr \<Rightarrow> bool" where
  "next_sibling_spec ts d k r \<longleftrightarrow>
     (case r of
        NULL \<Rightarrow> (\<forall>j. k \<le> j \<and> j < int (length ts) \<longrightarrow> d < dep ts j) \<or>
                (\<exists>j. k \<le> j \<and> j < int (length ts) \<and> dep ts j < d \<and>
                     (\<forall>m. k \<le> m \<and> m < j \<longrightarrow> d < dep ts m))
      | Ptr j \<Rightarrow> k \<le> j \<and> j < int (length ts) \<and> dep ts j = d \<and>
                 (\<forall>m. k \<le> m \<and> m < j \<longrightarrow> d < dep ts m))"

text \<open>The scan of the text, by character classes instead of characters.\<close>

definition lex_class :: "lex \<times> int \<Rightarrow> int \<Rightarrow> lex \<times> int" where
  "lex_class st c =
     (case st of
        (Outside, l) \<Rightarrow>
          if c = C_QUOTE then (Inside, l)
          else if c = C_LSQRB \<or> c = C_LCURB then (Outside, l + 1)
          else if c = C_RSQRB \<or> c = C_RCURB then (Outside, l - 1)
          else (Outside, l)
      | (Inside, l) \<Rightarrow>
          if c = C_QUOTE then (Outside, l)
          else if c = C_BACKS then (Escaped, l)
          else (Inside, l)
      | (Escaped, l) \<Rightarrow> (Inside, l))"

text \<open>Where in the scan of the text a state of the parser is.\<close>

definition lex_of_state :: "int \<Rightarrow> lex" where
  "lex_of_state s =
     (if s = ES then Escaped
      else if s = ST \<or> s = U1 \<or> s = U2 \<or> s = U3 \<or> s = U4 then Inside
      else Outside)"

text \<open>What the cell of state \<open>s\<close> and class \<open>c\<close> must hold for the parser to follow the scan
  of the text: a state that is where the scan is, or an action that changes the depth as
  the scan changes the level. \<open>cells_ok\<close> walks through the table, row after row.\<close>

definition entry_ok :: "int \<Rightarrow> int \<Rightarrow> int \<Rightarrow> bool" where
  "entry_ok s c ns \<longleftrightarrow>
     (let l = fst (lex_class (lex_of_state s, 0) c);
          d = snd (lex_class (lex_of_state s, 0) c)
      in if 0 \<le> ns \<and> ns < NR_STATES then lex_of_state ns = l \<and> d = 0
         else if ns = Ba \<or> ns = Bo then l = Outside \<and> d = 1
         else if ns = Bs then l = Inside \<and> d = 0
         else if ns = Bd \<or> ns = Bf \<or> ns = Bm \<or> ns = Bn \<or> ns = Bt \<or> ns = Bz
           then l = Outside \<and> d = 0
         else if ns = Fa \<or> ns = Fo then l = Outside \<and> d = - 1
         else if ns = Pl \<or> ns = Pm \<or> ns = Pq then l = Outside \<and> d = 0
         else if ns = Ps then l = Outside \<and> d = 0 \<and> lex_of_state s = Outside
         else True)"

fun cells_ok :: "int \<Rightarrow> int \<Rightarrow> int list \<Rightarrow> bool" where
  "cells_ok s c [] = True"
| "cells_ok s c (ns # rest) =
     (entry_ok s c ns \<and> (if c = 30 then cells_ok (s + 1) 0 rest else cells_ok s (c + 1) rest))"

text \<open>The classes of the six characters the scan of the text looks at.\<close>

definition char_ok :: "nat \<Rightarrow> bool" where
  "char_ok n \<longleftrightarrow>
     (let ch = char_of n; c = classify_char ch
      in (c = C_QUOTE \<longleftrightarrow> ch = CHR 0x22) \<and> (c = C_BACKS \<longleftrightarrow> ch = CHR 0x5C) \<and>
         (c = C_LSQRB \<longleftrightarrow> ch = CHR ''['') \<and> (c = C_LCURB \<longleftrightarrow> ch = CHR ''{'') \<and>
         (c = C_RSQRB \<longleftrightarrow> ch = CHR '']'') \<and> (c = C_RCURB \<longleftrightarrow> ch = CHR ''}''))"

text \<open>A token of an input of \<open>L\<close> bytes whose slice begins where \<open>begin_token\<close> has put it:
  until the token is sealed its slice runs to the end of the input, which is what
  \<open>finish_token\<close> computes the start from. \<open>marks\<close> lists where the tokens begin and their
  depths.\<close>

definition anchored :: "nat \<Rightarrow> mu_json_token \<Rightarrow> bool" where
  "anchored L t \<longleftrightarrow> 0 \<le> buf (json t) \<and> buf (json t) \<le> int L \<and>
     (\<not> token_is_sealed t \<longrightarrow> int (str_length (json t)) = int L - buf (json t))"

definition marks :: "mu_json_token list \<Rightarrow> (nat \<times> int) list" where
  "marks ts = map (\<lambda>t. (origin t, depth t)) ts"

text \<open>The parser follows the text: the tokens begin at increasing positions before
  \<open>char_pos\<close> and hold the level of the text there, narrowed to \<open>int16_t\<close>; and as long as
  there is no error, state and depth are where the scan of the text is, and every
  container that the text opens before \<open>char_pos\<close> has its token.\<close>

definition text_inv :: "string \<Rightarrow> parser \<Rightarrow> bool" where
  "text_inv inp p \<longleftrightarrow>
     p_json p = mu_str_init 0 (length inp) \<and> 0 \<le> p_char_pos p \<and>
     (\<forall>t \<in> set (p_tokens p). anchored (length inp) t) \<and>
     (\<forall>x \<in> set (marks (p_tokens p)).
        int (fst x) < p_char_pos p \<and> snd x = int16_of_int (level inp (fst x))) \<and>
     sorted_wrt (<) (map fst (marks (p_tokens p))) \<and>
     (p_error p = MU_JSON_ERR_NONE \<longrightarrow>
        scan inp (nat (p_char_pos p)) = (lex_of_state (p_state p), p_depth p) \<and>
        (\<forall>a < nat (p_char_pos p).
           a < length inp \<and> fst (scan inp a) = Outside \<and>
           (inp ! a = CHR ''['' \<or> inp ! a = CHR ''{'') \<longrightarrow>
           a \<in> fst ` set (marks (p_tokens p))))"

text \<open>The parser on its way through \<open>nest n\<close> with capacity \<open>n\<close>.\<close>

definition nesting :: "nat \<Rightarrow> parser \<Rightarrow> bool" where
  "nesting n p \<longleftrightarrow>
     p_error p = MU_JSON_ERR_NONE \<and> loop_inv p \<and> text_inv (nest n) p \<and> p_max_tokens p = n \<and>
     p_char_pos p \<le> 2 * int n \<and>
     map fst (marks (p_tokens p)) = [0..<length (p_tokens p)] \<and>
     (\<forall>s \<in> set (map shape (p_tokens p)). fst s = MU_JSON_TOKEN_TYPE_ARRAY) \<and>
     (if p_char_pos p \<le> int n
      then p_depth p = p_char_pos p \<and> int (length (p_tokens p)) = p_char_pos p \<and>
           p_state p = (if p_char_pos p = 0 then GO else AR)
      else p_depth p = 2 * int n - p_char_pos p \<and> length (p_tokens p) = n \<and> p_state p = OK)"

section \<open>Supporting lemmas\<close>

subsection \<open>The effect of the parser's steps\<close>

lemma finish_token_effect:
  assumes "finish_token p t b = Some p'"
  shows "\<exists>ts'. p' = p\<lparr>p_tokens := ts'\<rparr> \<and> map shape ts' = map shape (p_tokens p)"
proof (cases t)
  case NULL
  with assms have "p' = p" by (simp add: finish_token_def)
  then show ?thesis by (intro exI [of _ "p_tokens p"]) simp
next
  case (Ptr i)
  with assms obtain tk where tk: "deref (p_tokens p) (Ptr i) = Some tk"
    by (auto simp: finish_token_def split: Option.bind_splits)
  then have i: "0 \<le> i" "nat i < length (p_tokens p)" and tk_eq: "tk = p_tokens p ! nat i"
    by (auto split: if_splits)
  show ?thesis
  proof (cases "token_is_sealed tk")
    case True
    with assms Ptr tk have "p' = p" by (simp add: finish_token_def)
    then show ?thesis by (intro exI [of _ "p_tokens p"]) simp
  next
    case False
    define tk' where "tk' = seal_token (tk\<lparr>json := mu_str_slice (p_json p)
        (int (mu_str_length (p_json p)) - int (mu_str_length (json tk)))
        (if b then p_char_pos p + 1 else p_char_pos p)\<rparr>)"
    from assms Ptr tk False have p': "p' = p\<lparr>p_tokens := (p_tokens p)[nat i := tk']\<rparr>"
      by (simp add: finish_token_def Let_def tk'_def)
    have "shape tk' = shape tk"
      by (simp add: tk'_def shape_def seal_token_def token_is_first_def token_is_last_def)
    with i tk_eq have "map shape ((p_tokens p)[nat i := tk']) = map shape (p_tokens p)"
      by (simp add: map_update list_update_same_conv)
    with p' show ?thesis by blast
  qed
qed

lemma std_alloc_effect:
  "std_alloc p ty s =
     (if length (p_tokens p) \<ge> p_max_tokens p then p\<lparr>p_error := MU_JSON_ERR_NO_TOKENS\<rparr>
      else p\<lparr>p_tokens := p_tokens p @ [new_token p ty], p_state := s\<rparr>)"
  by (simp add: std_alloc_def begin_token_def token_count_def new_token_def Let_def)

lemma finish_container_effect:
  assumes "finish_container p ty = Some p'"
  shows "\<exists>ts'. p' = p\<lparr>p_tokens := ts', p_depth := p_depth p - 1, p_state := OK\<rparr> \<and>
           map shape ts' = map shape (p_tokens p)"
  using assms unfolding finish_container_def set_state_def Let_def
  by (auto split: Option.bind_splits if_splits dest!: finish_token_effect)

lemma action_begin:
  assumes "is_begin ns"
  shows "\<exists>ty s d. \<forall>p. action ns p = Some ((std_alloc p ty s)\<lparr>p_depth := p_depth (std_alloc p ty s) + d\<rparr>)"
proof -
  from assms consider "ns = Ba" | "ns = Bd" | "ns = Bf" | "ns = Bm" | "ns = Bn" | "ns = Bo"
    | "ns = Bs" | "ns = Bt" | "ns = Bz"
    by (auto simp: is_begin_def)
  then show ?thesis
  proof cases
    case 1
    then have "\<forall>p. action ns p = Some ((std_alloc p MU_JSON_TOKEN_TYPE_ARRAY AR)
        \<lparr>p_depth := p_depth (std_alloc p MU_JSON_TOKEN_TYPE_ARRAY AR) + 1\<rparr>)"
      by (simp add: action_def Let_def)
    then show ?thesis by blast
  next
    case 6
    then have "\<forall>p. action ns p = Some ((std_alloc p MU_JSON_TOKEN_TYPE_OBJECT OB)
        \<lparr>p_depth := p_depth (std_alloc p MU_JSON_TOKEN_TYPE_OBJECT OB) + 1\<rparr>)"
      by (simp add: action_def Let_def action_defs)
    then show ?thesis by blast
  next
    case 2
    then have "\<forall>p. action ns p = Some ((std_alloc p MU_JSON_TOKEN_TYPE_NUMBER IN)
        \<lparr>p_depth := p_depth (std_alloc p MU_JSON_TOKEN_TYPE_NUMBER IN) + 0\<rparr>)"
      by (simp add: action_def Let_def action_defs)
    then show ?thesis by blast
  next
    case 3
    then have "\<forall>p. action ns p = Some ((std_alloc p MU_JSON_TOKEN_TYPE_FALSE F1)
        \<lparr>p_depth := p_depth (std_alloc p MU_JSON_TOKEN_TYPE_FALSE F1) + 0\<rparr>)"
      by (simp add: action_def Let_def action_defs)
    then show ?thesis by blast
  next
    case 4
    then have "\<forall>p. action ns p = Some ((std_alloc p MU_JSON_TOKEN_TYPE_NUMBER MI)
        \<lparr>p_depth := p_depth (std_alloc p MU_JSON_TOKEN_TYPE_NUMBER MI) + 0\<rparr>)"
      by (simp add: action_def Let_def action_defs)
    then show ?thesis by blast
  next
    case 5
    then have "\<forall>p. action ns p = Some ((std_alloc p MU_JSON_TOKEN_TYPE_NULL N1)
        \<lparr>p_depth := p_depth (std_alloc p MU_JSON_TOKEN_TYPE_NULL N1) + 0\<rparr>)"
      by (simp add: action_def Let_def action_defs)
    then show ?thesis by blast
  next
    case 7
    then have "\<forall>p. action ns p = Some ((std_alloc p MU_JSON_TOKEN_TYPE_STRING ST)
        \<lparr>p_depth := p_depth (std_alloc p MU_JSON_TOKEN_TYPE_STRING ST) + 0\<rparr>)"
      by (simp add: action_def Let_def action_defs)
    then show ?thesis by blast
  next
    case 8
    then have "\<forall>p. action ns p = Some ((std_alloc p MU_JSON_TOKEN_TYPE_TRUE T1)
        \<lparr>p_depth := p_depth (std_alloc p MU_JSON_TOKEN_TYPE_TRUE T1) + 0\<rparr>)"
      by (simp add: action_def Let_def action_defs)
    then show ?thesis by blast
  next
    case 9
    then have "\<forall>p. action ns p = Some ((std_alloc p MU_JSON_TOKEN_TYPE_NUMBER ZE)
        \<lparr>p_depth := p_depth (std_alloc p MU_JSON_TOKEN_TYPE_NUMBER ZE) + 0\<rparr>)"
      by (simp add: action_def Let_def action_defs)
    then show ?thesis by blast
  qed
qed

text \<open>An action that begins no token leaves the shapes alone, does not look at the capacity
  and can only fail with \<open>BAD_FORMAT\<close>.\<close>

lemma finish_token_set_max:
  "finish_token (set_max b p) t x = map_option (set_max b) (finish_token p t x)"
  by (cases t) (auto simp: finish_token_def set_max_def Let_def split: Option.bind_splits)

lemma tos_set_max [simp]: "tos (set_max b p) = tos p"
  by (simp add: tos_def set_max_def token_count_def)

lemma p_tokens_set_max [simp]: "p_tokens (set_max b p) = p_tokens p"
  and p_state_set_max [simp]: "p_state (set_max b p) = p_state p"
  and p_error_set_max [simp]: "p_error (set_max b p) = p_error p"
  and p_depth_set_max [simp]: "p_depth (set_max b p) = p_depth p"
  and p_char_pos_set_max [simp]: "p_char_pos (set_max b p) = p_char_pos p"
  and p_json_set_max [simp]: "p_json (set_max b p) = p_json p"
  by (simp_all add: set_max_def)

lemma set_max_upd:
  "set_max b (set_state q s) = set_state (set_max b q) s"
  "set_max b (q\<lparr>p_depth := d\<rparr>) = (set_max b q)\<lparr>p_depth := d\<rparr>"
  "set_max b (q\<lparr>p_error := e\<rparr>) = (set_max b q)\<lparr>p_error := e\<rparr>"
  "set_max b (q\<lparr>p_char_pos := c\<rparr>) = (set_max b q)\<lparr>p_char_pos := c\<rparr>"
  by (simp_all add: set_max_def set_state_def)

lemma bind_map_set_max:
  "Option.bind (map_option (set_max b) x) f = Option.bind x (\<lambda>q. f (set_max b q))"
  by (cases x) simp_all

lemma map_bind_set_max:
  "map_option (set_max b) (Option.bind x f) = Option.bind x (\<lambda>q. map_option (set_max b) (f q))"
  by (cases x) simp_all

lemmas set_max_simps = finish_token_set_max bind_map_set_max map_bind_set_max set_max_upd
  if_distrib [of "map_option (set_max b)" for b]

lemma finish_container_set_max:
  "finish_container (set_max b p) ty = map_option (set_max b) (finish_container p ty)"
  unfolding finish_container_def Let_def
  by (cases "mu_json_token_type (p_tokens p) (tos p)";
      cases "finish_token p (tos p) False"; cases "finish_token p (tos p) True";
      cases "deref (p_tokens p) (tos p)";
      cases "mu_json_token_parent (p_tokens p) (tos p)")
     (simp_all add: set_max_simps cong: if_cong Option.bind_cong)

lemma action_set_max:
  assumes "\<not> is_begin ns"
  shows "action ns (set_max b p) = map_option (set_max b) (action ns p)"
  using assms unfolding action_def Let_def is_begin_def
  by (cases "finish_token p (tos p) False"; cases "finish_token p (tos p) True";
      cases "deref (p_tokens p) (tos p)")
     (simp_all add: set_max_simps finish_container_set_max cong: if_cong Option.bind_cong)

lemma same_frame_refl [simp]: "same_frame p p"
  by (simp add: same_frame_def)

lemma same_frame_trans: "same_frame p q \<Longrightarrow> same_frame q r \<Longrightarrow> same_frame p r"
  by (simp add: same_frame_def)

lemma same_frame_upd [simp]:
  "same_frame p (q\<lparr>p_state := s\<rparr>) = same_frame p q"
  "same_frame p (q\<lparr>p_depth := d\<rparr>) = same_frame p q"
  "same_frame p (q\<lparr>p_error := e\<rparr>) = same_frame p q"
  "same_frame p (set_state q s) = same_frame p q"
  by (simp_all add: same_frame_def set_state_def)

lemma finish_token_frame:
  assumes "finish_token p t b = Some q"
  shows "same_frame p q \<and> p_depth q = p_depth p \<and> p_state q = p_state p \<and> p_error q = p_error p"
  using finish_token_effect [OF assms] by (auto simp: same_frame_def)

lemma finish_container_frame:
  assumes "finish_container p ty = Some q"
  shows "same_frame p q \<and> p_error q = p_error p"
  using finish_container_effect [OF assms] by (auto simp: same_frame_def)

lemma action_other_frame:
  assumes "action ns p = Some q" "\<not> is_begin ns"
  shows "same_frame p q \<and> (p_error q = p_error p \<or> p_error q = MU_JSON_ERR_BAD_FORMAT)"
proof -
  consider "ns = Fa" | "ns = Fo" | "ns = Pl" | "ns = Pm" | "ns = Ps" | "ns = Pq"
    | "ns \<notin> {Ba, Bd, Bf, Bm, Bn, Bo, Bs, Bt, Bz, Fa, Fo, Pl, Pm, Ps, Pq}"
    using assms(2) unfolding is_begin_def by blast
  then show ?thesis
  proof cases
    case 1
    with assms(1) have "finish_container p MU_JSON_TOKEN_TYPE_ARRAY = Some q"
      by (simp add: action_def action_defs)
    from finish_container_frame [OF this] show ?thesis by simp
  next
    case 2
    with assms(1) have "finish_container p MU_JSON_TOKEN_TYPE_OBJECT = Some q"
      by (simp add: action_def action_defs)
    from finish_container_frame [OF this] show ?thesis by simp
  next
    case 3
    with assms(1) obtain p1 s where "finish_token p (tos p) False = Some p1" "q = set_state p1 s"
      by (auto simp: action_def action_defs Let_def split: Option.bind_splits)
    with finish_token_frame [OF this(1)] show ?thesis
      by (simp add: set_state_def)
  next
    case 4
    with assms(1) obtain p1 s where "finish_token p (tos p) False = Some p1" "q = set_state p1 s"
      by (auto simp: action_def action_defs Let_def split: Option.bind_splits)
    with finish_token_frame [OF this(1)] show ?thesis
      by (simp add: set_state_def)
  next
    case 5
    with assms(1) obtain p1 s where
      "finish_token p (tos p) False = Some p1 \<or> p1 = p" "q = set_state p1 s"
      by (auto simp: action_def action_defs Let_def split: Option.bind_splits if_splits)
    with finish_token_frame [of p "tos p" False p1] show ?thesis
      by (auto simp: set_state_def)
  next
    case 6
    with assms(1) obtain p1 s where "finish_token p (tos p) True = Some p1" "q = set_state p1 s"
      by (auto simp: action_def action_defs Let_def split: Option.bind_splits)
    with finish_token_frame [OF this(1)] show ?thesis
      by (simp add: set_state_def)
  next
    case 7
    with assms(1) have "q = p\<lparr>p_error := MU_JSON_ERR_BAD_FORMAT\<rparr>"
      by (simp add: action_def)
    then show ?thesis by simp
  qed
qed

subsection \<open>Properties kept by the loop\<close>

lemma ascii_classes_range: "\<forall>x \<in> set ascii_classes. 0 \<le> x \<and> x \<le> 30 \<or> x = 255"
  by (simp add: ascii_classes_def class_defs ERR_def)

lemma classify_char_range: "0 \<le> classify_char ch \<and> classify_char ch \<le> 30 \<or> classify_char ch = 255"
proof (cases "(of_char ch :: nat) \<ge> length ascii_classes")
  case True
  then show ?thesis by (simp add: classify_char_def C_ETC_def)
next
  case False
  then have "ascii_classes ! of_char ch \<in> set ascii_classes" by simp
  with ascii_classes_range False show ?thesis
    by (auto simp: classify_char_def)
qed

lemma classify_char_nonneg: "\<not> classify_char ch < 0"
  using classify_char_range [of ch] by auto

lemma parse_loop_invariant:
  assumes "parse_loop mem p = Some q" and "I p"
    and step: "\<And>c p p'. I p \<Longrightarrow> p_error p = MU_JSON_ERR_NONE \<Longrightarrow>
                 0 \<le> c \<and> c \<le> 30 \<or> c = 255 \<Longrightarrow> iteration c p = Some p' \<Longrightarrow> I p'"
  shows "I q"
  using assms(1,2)
proof (induction mem p rule: parse_loop.induct)
  case (1 mem p)
  note run = "1.prems"(1) [unfolded parse_loop.simps [of mem p]]
  show ?case
  proof (cases "p_error p = MU_JSON_ERR_NONE")
    case False
    with run "1.prems"(2) show ?thesis by simp
  next
    case noerr: True
    show ?thesis
    proof (cases "mu_str_get_byte mem (p_json p) (p_char_pos p)")
      case None
      with run noerr have "iteration C_SPACE p = Some q" by simp
      with "1.prems"(2) noerr show ?thesis by (intro step [of p C_SPACE q]) (simp_all add: C_SPACE_def)
    next
      case (Some ch)
      with run noerr obtain p' where it: "iteration (classify_char ch) p = Some p'"
        and rest: "parse_loop mem p' = Some q"
        by (auto simp: Let_def classify_char_nonneg split: Option.bind_splits)
      from "1.prems"(2) noerr classify_char_range it have "I p'" by (rule step)
      with "1.IH" [OF _ Some refl classify_char_nonneg it rest] noerr show ?thesis by simp
    qed
  qed
qed

lemma iteration_cases:
  assumes "iteration c p = Some p'"
  obtains
    (move) ns where "lookup_state (p_state p) c = Some ns" "0 \<le> ns" "ns < NR_STATES"
      "p' = p\<lparr>p_state := ns, p_char_pos := p_char_pos p + 1\<rparr>"
  | (nomem) ns d where "lookup_state (p_state p) c = Some ns" "is_begin ns"
      "length (p_tokens p) \<ge> p_max_tokens p"
      "p' = p\<lparr>p_depth := p_depth p + d, p_char_pos := p_char_pos p + 1,
              p_error := MU_JSON_ERR_NO_TOKENS\<rparr>"
  | (alloc) ns ty s d where "lookup_state (p_state p) c = Some ns" "is_begin ns"
      "length (p_tokens p) < p_max_tokens p"
      "p' = p\<lparr>p_tokens := p_tokens p @ [new_token p ty], p_depth := p_depth p + d,
              p_char_pos := p_char_pos p + 1, p_state := s\<rparr>"
  | (act) ns q where "lookup_state (p_state p) c = Some ns" "\<not> is_begin ns"
      "\<not> (0 \<le> ns \<and> ns < NR_STATES)"
      "action ns p = Some q" "p' = q\<lparr>p_char_pos := p_char_pos p + 1\<rparr>" "same_frame p q"
      "p_error q = p_error p \<or> p_error q = MU_JSON_ERR_BAD_FORMAT"
proof -
  from assms obtain ns p1 where ns: "lookup_state (p_state p) c = Some ns"
    and p1: "(if 0 \<le> ns \<and> ns < NR_STATES then Some (set_state p ns) else action ns p) = Some p1"
    and p': "p' = p1\<lparr>p_char_pos := p_char_pos p1 + 1\<rparr>"
    by (auto simp: iteration_def split: Option.bind_splits)
  show thesis
  proof (cases "0 \<le> ns \<and> ns < NR_STATES")
    case True
    with p1 p' have "p' = p\<lparr>p_state := ns, p_char_pos := p_char_pos p + 1\<rparr>"
      by (auto simp: set_state_def)
    with ns True show thesis by (auto intro: move)
  next
    case False
    with p1 have aeq: "action ns p = Some p1" by simp
    show thesis
    proof (cases "is_begin ns")
      case True
      from action_begin [OF this] obtain ty s d where
        "action ns p = Some ((std_alloc p ty s)\<lparr>p_depth := p_depth (std_alloc p ty s) + d\<rparr>)"
        by blast
      with aeq have p1_eq: "p1 = (std_alloc p ty s)\<lparr>p_depth := p_depth (std_alloc p ty s) + d\<rparr>"
        by simp
      show thesis
      proof (cases "length (p_tokens p) \<ge> p_max_tokens p")
        case full: True
        with p1_eq p' have "p' = p\<lparr>p_depth := p_depth p + d, p_char_pos := p_char_pos p + 1,
              p_error := MU_JSON_ERR_NO_TOKENS\<rparr>"
          by (simp add: std_alloc_effect)
        with ns True full show thesis by (rule nomem)
      next
        case room: False
        with p1_eq p' have "p' = p\<lparr>p_tokens := p_tokens p @ [new_token p ty],
              p_depth := p_depth p + d, p_char_pos := p_char_pos p + 1, p_state := s\<rparr>"
          by (simp add: std_alloc_effect)
        moreover from room have "length (p_tokens p) < p_max_tokens p" by simp
        ultimately show thesis using ns True by (auto intro: alloc)
      qed
    next
      case nb: False
      from action_other_frame [OF aeq nb] have fr: "same_frame p p1"
        and er: "p_error p1 = p_error p \<or> p_error p1 = MU_JSON_ERR_BAD_FORMAT" by auto
      from fr p' have p'_eq: "p' = p1\<lparr>p_char_pos := p_char_pos p + 1\<rparr>"
        by (simp add: same_frame_def)
      show thesis by (rule act [OF ns nb False aeq p'_eq fr er])
    qed
  qed
qed

lemma same_shape_nth:
  assumes "map shape ts' = map shape ts"
  shows "length ts' = length ts" and "i < length ts \<Longrightarrow> shape (ts' ! i) = shape (ts ! i)"
proof -
  from assms show len: "length ts' = length ts" by (rule map_eq_imp_length_eq)
  assume "i < length ts"
  with len have "shape (ts' ! i) = map shape ts' ! i" by simp
  also have "\<dots> = map shape ts ! i" by (simp add: assms)
  also from \<open>i < length ts\<close> have "\<dots> = shape (ts ! i)" by simp
  finally show "shape (ts' ! i) = shape (ts ! i)" .
qed

lemma same_frame_length: "same_frame p q \<Longrightarrow> length (p_tokens q) = length (p_tokens p)"
  by (auto simp: same_frame_def dest: map_eq_imp_length_eq)

lemma flags_inv_shape:
  assumes "map shape ts' = map shape ts" "flags_inv ts"
  shows "flags_inv ts'"
  unfolding flags_inv_def
proof (intro allI impI)
  fix i assume "i < length ts'"
  with same_shape_nth [OF assms(1)] have i: "i < length ts" and "shape (ts' ! i) = shape (ts ! i)"
    by auto
  then have "token_is_first (ts' ! i) = token_is_first (ts ! i)"
    "token_is_last (ts' ! i) = token_is_last (ts ! i)"
    by (auto simp: shape_def)
  with assms(2) i show "(token_is_first (ts' ! i) \<longleftrightarrow> i = 0) \<and> \<not> token_is_last (ts' ! i)"
    by (simp add: flags_inv_def)
qed

lemma flags_inv_append:
  assumes "flags_inv (p_tokens p)"
  shows "flags_inv (p_tokens p @ [new_token p ty])"
  unfolding flags_inv_def
proof (intro allI impI)
  fix i assume i: "i < length (p_tokens p @ [new_token p ty])"
  show "(token_is_first ((p_tokens p @ [new_token p ty]) ! i) \<longleftrightarrow> i = 0) \<and>
        \<not> token_is_last ((p_tokens p @ [new_token p ty]) ! i)"
  proof (cases "i < length (p_tokens p)")
    case True
    with assms show ?thesis by (simp add: flags_inv_def nth_append)
  next
    case False
    with i have "i = length (p_tokens p)" by simp
    then show ?thesis
      by (simp add: nth_append new_token_def token_is_first_def token_is_last_def)
  qed
qed

lemma iteration_flags_inv:
  assumes "iteration c p = Some p'" "flags_inv (p_tokens p)"
  shows "flags_inv (p_tokens p')"
  using assms(1)
proof (cases rule: iteration_cases)
  case (act ns q)
  then show ?thesis using assms(2) by (auto simp: same_frame_def intro: flags_inv_shape)
qed (use assms(2) in \<open>auto intro: flags_inv_append\<close>)

lemma iteration_length:
  assumes "iteration c p = Some p'"
  shows "length (p_tokens p) \<le> length (p_tokens p') \<and> length (p_tokens p') \<le> length (p_tokens p) + 1"
  using assms by (cases rule: iteration_cases) (auto dest: same_frame_length)

lemma iteration_max:
  assumes "iteration c p = Some p'"
  shows "p_max_tokens p' = p_max_tokens p \<and> p_json p' = p_json p"
  using assms by (cases rule: iteration_cases) (auto simp: same_frame_def)

lemma iteration_count_le_max:
  assumes "iteration c p = Some p'" "length (p_tokens p) \<le> p_max_tokens p"
  shows "length (p_tokens p') \<le> p_max_tokens p'"
  using assms by (cases rule: iteration_cases) (auto simp: same_frame_def dest: map_eq_imp_length_eq)

subsection \<open>One turn of the loop and the capacity\<close>

lemma new_token_set_max [simp]:
  "new_token (set_max b p) ty = new_token p ty"
  "new_token (p\<lparr>p_max_tokens := b\<rparr>) ty = new_token p ty"
  by (simp_all add: new_token_def)

lemma p_max_tokens_set_max [simp]: "p_max_tokens (set_max b p) = b"
  by (simp add: set_max_def)

lemma iteration_begin_eq:
  assumes "lookup_state (p_state p) c = Some ns" "is_begin ns"
  shows "\<exists>ty s d. \<forall>b. iteration c (set_max b p) =
           Some ((std_alloc (set_max b p) ty s)\<lparr>p_depth := p_depth p + d, p_char_pos := p_char_pos p + 1\<rparr>)"
proof -
  from action_begin [OF assms(2)] obtain ty s d where
    a: "\<And>p. action ns p = Some ((std_alloc p ty s)\<lparr>p_depth := p_depth (std_alloc p ty s) + d\<rparr>)"
    by blast
  from assms(2) have nb: "\<not> ns < NR_STATES"
    by (auto simp: is_begin_def action_defs state_defs)
  have "iteration c (set_max b p) =
           Some ((std_alloc (set_max b p) ty s)\<lparr>p_depth := p_depth p + d, p_char_pos := p_char_pos p + 1\<rparr>)" for b
    using assms(1) nb by (simp add: iteration_def a std_alloc_effect)
  then show ?thesis by blast
qed

lemma set_max_same [simp]: "set_max (p_max_tokens p) p = p"
  by (simp add: set_max_def)

text \<open>A turn of the loop that does not run out of tokens does the same with any capacity
  that holds the tokens it leaves.\<close>

lemma iteration_set_max:
  assumes it: "iteration c p = Some p'" and ne: "p_error p' \<noteq> MU_JSON_ERR_NO_TOKENS"
    and le: "length (p_tokens p') \<le> b" and noerr: "p_error p = MU_JSON_ERR_NONE"
  shows "iteration c (set_max b p) = Some (set_max b p')"
proof -
  from it obtain ns where ns: "lookup_state (p_state p) c = Some ns"
    by (auto simp: iteration_def split: Option.bind_splits)
  show ?thesis
  proof (cases "is_begin ns")
    case True
    from iteration_begin_eq [OF ns True] obtain ty s d where
      eq: "\<And>b. iteration c (set_max b p) =
           Some ((std_alloc (set_max b p) ty s)\<lparr>p_depth := p_depth p + d, p_char_pos := p_char_pos p + 1\<rparr>)"
      by blast
    from eq [of "p_max_tokens p"] it
    have p': "p' = (std_alloc p ty s)\<lparr>p_depth := p_depth p + d, p_char_pos := p_char_pos p + 1\<rparr>"
      by simp
    with ne noerr have room: "length (p_tokens p) < p_max_tokens p"
      by (auto simp: std_alloc_effect err_defs split: if_splits)
    with p' le have "length (p_tokens p) < b" by (simp add: std_alloc_effect)
    with room p' eq [of b] show ?thesis
      by (simp add: std_alloc_effect set_max_def)
  next
    case nb: False
    show ?thesis
    proof (cases "0 \<le> ns \<and> ns < NR_STATES")
      case True
      with it ns show ?thesis
        by (auto simp: iteration_def set_state_def set_max_def)
    next
      case False
      with it ns obtain q where q: "action ns p = Some q" and p': "p' = q\<lparr>p_char_pos := p_char_pos q + 1\<rparr>"
        by (auto simp: iteration_def split: Option.bind_splits)
      with ns False action_set_max [OF nb, of b p] show ?thesis
        by (auto simp: iteration_def set_max_def)
    qed
  qed
qed

lemma iteration_out_of_tokens:
  assumes it: "iteration c p = Some p'" and gt: "length (p_tokens p') > length (p_tokens p)"
  shows "\<exists>p''. iteration c (set_max (length (p_tokens p)) p) = Some p'' \<and>
           p_error p'' = MU_JSON_ERR_NO_TOKENS"
proof -
  from it obtain ns where ns: "lookup_state (p_state p) c = Some ns"
    by (auto simp: iteration_def split: Option.bind_splits)
  have "is_begin ns"
  proof (rule ccontr)
    assume "\<not> is_begin ns"
    with it ns gt show False
      by (cases rule: iteration_cases) (auto dest: same_frame_length)
  qed
  from iteration_begin_eq [OF ns this] obtain ty s d where
      eq: "\<And>b. iteration c (set_max b p) =
           Some ((std_alloc (set_max b p) ty s)\<lparr>p_depth := p_depth p + d, p_char_pos := p_char_pos p + 1\<rparr>)"
      by blast
  from eq [of "length (p_tokens p)"] show ?thesis
    by (simp add: std_alloc_effect)
qed

subsection \<open>Navigation in a well-formed store\<close>

lemma deref_in_store [simp]: "in_store ts k \<Longrightarrow> deref ts (Ptr k) = Some (ts ! nat k)"
  and deref_not_in_store [simp]: "\<not> in_store ts k \<Longrightarrow> deref ts (Ptr k) = None"
  by (simp_all add: in_store_def)

declare deref.simps(2) [simp del]

lemma depth_in_store [simp]:
  "in_store ts k \<Longrightarrow> mu_json_token_depth ts (Ptr k) = Some (dep ts k)"
  by (simp add: mu_json_token_depth_def dep_def)

lemma wf_first: "wf_store ts \<Longrightarrow> in_store ts k \<Longrightarrow> token_is_first (ts ! nat k) \<longleftrightarrow> k = 0"
  by (auto simp: wf_store_def in_store_def)

lemma wf_first0: "wf_store ts \<Longrightarrow> in_store ts 0 \<Longrightarrow> token_is_first (ts ! 0)"
  using wf_first [of ts 0] by simp

lemma wf_last:
  "wf_store ts \<Longrightarrow> in_store ts k \<Longrightarrow> token_is_last (ts ! nat k) \<longleftrightarrow> k + 1 = int (length ts)"
  unfolding wf_store_def in_store_def
  by (metis nat_less_iff of_nat_Suc Suc_eq_plus1 add.commute int_nat_eq nat_int)

lemma prev_in_store:
  assumes "wf_store ts" "in_store ts k"
  shows "mu_json_token_prev ts (Ptr k) = Some (if k = 0 then NULL else Ptr (k - 1))"
  using assms by (simp add: mu_json_token_prev_def wf_first)

lemma next_in_store:
  assumes "wf_store ts" "in_store ts k"
  shows "mu_json_token_next ts (Ptr k) =
           Some (if k + 1 = int (length ts) then NULL else Ptr (k + 1))"
  using assms by (simp add: mu_json_token_next_def wf_last)

lemma in_store_pred: "in_store ts k \<Longrightarrow> k \<noteq> 0 \<Longrightarrow> in_store ts (k - 1)"
  and in_store_succ: "in_store ts k \<Longrightarrow> k + 1 \<noteq> int (length ts) \<Longrightarrow> in_store ts (k + 1)"
  by (auto simp: in_store_def)

lemma root_loop_in_store:
  assumes "wf_store ts" "in_store ts k"
  shows "root_loop ts (Ptr k) = Some (Ptr 0)"
  using assms(2)
proof (induction "nat k" arbitrary: k)
  case 0
  then have "k = 0" by (simp add: in_store_def)
  with 0 assms(1) show ?case
    by (subst root_loop.simps) (simp add: wf_first0)
next
  case (Suc n)
  then have k: "k \<noteq> 0" and n: "n = nat (k - 1)" by auto
  from Suc.hyps(1) [OF n in_store_pred [OF Suc.prems k]] Suc.prems k assms(1) show ?case
    by (subst root_loop.simps) (simp add: wf_first prev_in_store)
qed

lemma parent_loop_spec:
  assumes "wf_store ts" "in_store ts k"
  shows "\<exists>r. parent_loop ts d (Ptr k) = Some r \<and> parent_spec ts d k r"
  using assms(2)
proof (induction "nat k" arbitrary: k)
  case 0
  then have "k = 0" by (simp add: in_store_def)
  with 0 assms(1) show ?case
    by (subst parent_loop.simps) (simp add: prev_in_store parent_spec_def)
next
  case (Suc n)
  then have k: "k \<noteq> 0" and n: "n = nat (k - 1)" by auto
  note prev = in_store_pred [OF Suc.prems k]
  show ?case
  proof (cases "d \<le> dep ts (k - 1)")
    case True
    from Suc.hyps(1) [OF n prev] obtain r where
      r: "parent_loop ts d (Ptr (k - 1)) = Some r" "parent_spec ts d (k - 1) r" by blast
    from r(2) True have "parent_spec ts d k r"
      by (cases r) (auto simp: parent_spec_def, (metis add.commute add_diff_cancel_left' zle_diff1_eq order_le_less)+)
    with r(1) True prev Suc.prems k assms(1) show ?thesis
      by (subst parent_loop.simps) (simp add: prev_in_store)
  next
    case False
    from prev False have "parent_spec ts d k (Ptr (k - 1))"
      by (auto simp: parent_spec_def in_store_def)
    with False prev Suc.prems k assms(1) show ?thesis
      by (subst parent_loop.simps) (simp add: prev_in_store)
  qed
qed

lemma prev_sibling_spec_step:
  assumes "prev_sibling_spec ts d (k - 1) r" "d < dep ts k"
  shows "prev_sibling_spec ts d k r"
proof -
  have split: "m \<le> k \<longleftrightarrow> m \<le> k - 1 \<or> m = k" for m by auto
  from assms show ?thesis
    unfolding prev_sibling_spec_def
    by (cases r) (auto simp: split)
qed

lemma prev_sibling_loop_spec:
  assumes "wf_store ts" "in_store ts t" "in_store ts k"
  shows "\<exists>r. prev_sibling_loop ts (Ptr t) (Ptr k) = Some r \<and> prev_sibling_spec ts (dep ts t) k r"
  using assms(3)
proof (induction "nat k" arbitrary: k)
  case 0
  then have k0: "k = 0" by (simp add: in_store_def)
  consider "dep ts 0 < dep ts t" | "dep ts 0 = dep ts t" | "dep ts t < dep ts 0" by linarith
  then show ?case
  proof cases
    case 1
    then have "prev_sibling_spec ts (dep ts t) 0 NULL"
      by (auto simp: prev_sibling_spec_def)
    with 1 0 k0 assms(1,2) show ?thesis
      by (subst prev_sibling_loop.simps) simp
  next
    case 2
    then have "prev_sibling_spec ts (dep ts t) 0 (Ptr 0)"
      by (auto simp: prev_sibling_spec_def)
    with 2 0 k0 assms(1,2) show ?thesis
      by (subst prev_sibling_loop.simps) simp
  next
    case 3
    then have "prev_sibling_spec ts (dep ts t) 0 NULL"
      by (auto simp: prev_sibling_spec_def)
    moreover have "prev_sibling_loop ts (Ptr t) NULL = Some NULL"
      by (subst prev_sibling_loop.simps) simp
    ultimately show ?thesis using 3 0 k0 assms(1,2)
      by (subst prev_sibling_loop.simps) (simp add: prev_in_store)
  qed
next
  case (Suc n)
  then have k: "k \<noteq> 0" and n: "n = nat (k - 1)" by auto
  note prev = in_store_pred [OF Suc.prems k]
  from Suc.prems have k0: "0 \<le> k" by (simp add: in_store_def)
  consider "dep ts k < dep ts t" | "dep ts k = dep ts t" | "dep ts t < dep ts k" by linarith
  then show ?case
  proof cases
    case 1
    with k0 have "prev_sibling_spec ts (dep ts t) k NULL"
      by (auto simp: prev_sibling_spec_def)
    with 1 Suc.prems assms(1,2) show ?thesis
      by (subst prev_sibling_loop.simps) simp
  next
    case 2
    with k0 have "prev_sibling_spec ts (dep ts t) k (Ptr k)"
      by (auto simp: prev_sibling_spec_def)
    with 2 Suc.prems assms(1,2) show ?thesis
      by (subst prev_sibling_loop.simps) simp
  next
    case 3
    from Suc.hyps(1) [OF n prev] obtain r where
      r: "prev_sibling_loop ts (Ptr t) (Ptr (k - 1)) = Some r"
         "prev_sibling_spec ts (dep ts t) (k - 1) r" by blast
    from prev_sibling_spec_step [OF r(2) 3] r(1) 3 Suc.prems k assms(1,2) show ?thesis
      by (subst prev_sibling_loop.simps) (simp add: prev_in_store)
  qed
qed

lemma next_sibling_spec_step:
  assumes "next_sibling_spec ts d (k + 1) r" "d < dep ts k"
  shows "next_sibling_spec ts d k r"
proof -
  have split: "k \<le> m \<longleftrightarrow> k + 1 \<le> m \<or> m = k" for m by auto
  from assms show ?thesis
    unfolding next_sibling_spec_def
    by (cases r) (auto simp: split)
qed

lemma next_sibling_loop_NULL [simp]: "next_sibling_loop ts t NULL = Some NULL"
  by (subst next_sibling_loop.simps) simp

lemma prev_sibling_loop_NULL [simp]: "prev_sibling_loop ts t NULL = Some NULL"
  by (subst prev_sibling_loop.simps) simp

lemma next_sibling_loop_spec:
  assumes "wf_store ts" "in_store ts t" "in_store ts k"
  shows "\<exists>r. next_sibling_loop ts (Ptr t) (Ptr k) = Some r \<and> next_sibling_spec ts (dep ts t) k r"
  using assms(3)
proof (induction "nat (int (length ts) - k)" arbitrary: k)
  case 0
  then show ?case by (simp add: in_store_def)
next
  case (Suc n)
  from Suc.prems have kl: "k < int (length ts)" by (simp add: in_store_def)
  consider "dep ts k < dep ts t" | "dep ts k = dep ts t" | "dep ts t < dep ts k" by linarith
  then show ?case
  proof cases
    case 1
    with kl have "next_sibling_spec ts (dep ts t) k NULL"
      by (auto simp: next_sibling_spec_def)
    with 1 Suc.prems assms(1,2) show ?thesis
      by (subst next_sibling_loop.simps) simp
  next
    case 2
    with kl have "next_sibling_spec ts (dep ts t) k (Ptr k)"
      by (auto simp: next_sibling_spec_def)
    with 2 Suc.prems assms(1,2) show ?thesis
      by (subst next_sibling_loop.simps) simp
  next
    case 3
    show ?thesis
    proof (cases "k + 1 = int (length ts)")
      case True
      have "j = k" if "k \<le> j" "j < int (length ts)" for j
        using that True by linarith
      with 3 have "next_sibling_spec ts (dep ts t) k NULL"
        by (auto simp: next_sibling_spec_def)
      with 3 True Suc.prems assms(1,2) show ?thesis
        by (subst next_sibling_loop.simps) (simp add: next_in_store)
    next
      case False
      note succ = in_store_succ [OF Suc.prems False]
      from Suc.hyps(2) have "n = nat (int (length ts) - (k + 1))" by simp
      from Suc.hyps(1) [OF this succ] obtain r where
        r: "next_sibling_loop ts (Ptr t) (Ptr (k + 1)) = Some r"
           "next_sibling_spec ts (dep ts t) (k + 1) r" by blast
      from next_sibling_spec_step [OF r(2) 3] r(1) 3 False Suc.prems assms(1,2) show ?thesis
        by (subst next_sibling_loop.simps) (simp add: next_in_store)
    qed
  qed
qed

lemma next_sibling_spec_unique:
  assumes "next_sibling_spec ts d k r" "next_sibling_spec ts d k (Ptr t)"
  shows "r = Ptr t"
proof -
  from assms(2) have t: "k \<le> t" "t < int (length ts)" "dep ts t = d"
    and before: "\<And>m. k \<le> m \<Longrightarrow> m < t \<Longrightarrow> d < dep ts m"
    by (auto simp: next_sibling_spec_def)
  show ?thesis
  proof (cases r)
    case NULL
    with assms(1) consider "\<forall>j. k \<le> j \<and> j < int (length ts) \<longrightarrow> d < dep ts j"
      | j where "k \<le> j" "j < int (length ts)" "dep ts j < d" "\<forall>m. k \<le> m \<and> m < j \<longrightarrow> d < dep ts m"
      by (auto simp: next_sibling_spec_def)
    then show ?thesis
    proof cases
      case 1
      with t show ?thesis by auto
    next
      case 2
      consider "j < t" | "j = t" | "t < j" by linarith
      then show ?thesis
      proof cases
        case 1 with before [of j] 2 show ?thesis by auto
      next
        case 2 with \<open>dep ts j < d\<close> t show ?thesis by auto
      next
        case 3 with 2(4) t show ?thesis by auto
      qed
    qed
  next
    case (Ptr j)
    with assms(1) have j: "k \<le> j" "j < int (length ts)" "dep ts j = d"
      "\<forall>m. k \<le> m \<and> m < j \<longrightarrow> d < dep ts m"
      by (auto simp: next_sibling_spec_def)
    consider "j < t" | "j = t" | "t < j" by linarith
    then show ?thesis
    proof cases
      case 1 with before [of j] j show ?thesis by auto
    next
      case 2 with Ptr show ?thesis by simp
    next
      case 3 with j(4) t show ?thesis by auto
    qed
  qed
qed

lemma prev_sibling_spec_unique:
  assumes "prev_sibling_spec ts d k r" "prev_sibling_spec ts d k (Ptr t)"
  shows "r = Ptr t"
proof -
  from assms(2) have t: "0 \<le> t" "t \<le> k" "dep ts t = d"
    and after: "\<And>m. t < m \<Longrightarrow> m \<le> k \<Longrightarrow> d < dep ts m"
    by (auto simp: prev_sibling_spec_def)
  show ?thesis
  proof (cases r)
    case NULL
    with assms(1) consider "\<forall>j. 0 \<le> j \<and> j \<le> k \<longrightarrow> d < dep ts j"
      | j where "0 \<le> j" "j \<le> k" "dep ts j < d" "\<forall>m. j < m \<and> m \<le> k \<longrightarrow> d < dep ts m"
      by (auto simp: prev_sibling_spec_def)
    then show ?thesis
    proof cases
      case 1
      with t show ?thesis by auto
    next
      case 2
      consider "j < t" | "j = t" | "t < j" by linarith
      then show ?thesis
      proof cases
        case 1 with 2(4) t show ?thesis by auto
      next
        case 2 with \<open>dep ts j < d\<close> t show ?thesis by auto
      next
        case 3 with after [of j] 2 show ?thesis by auto
      qed
    qed
  next
    case (Ptr j)
    with assms(1) have j: "0 \<le> j" "j \<le> k" "dep ts j = d"
      "\<forall>m. j < m \<and> m \<le> k \<longrightarrow> d < dep ts m"
      by (auto simp: prev_sibling_spec_def)
    consider "j < t" | "j = t" | "t < j" by linarith
    then show ?thesis
    proof cases
      case 1 with j(4) t show ?thesis by auto
    next
      case 2 with Ptr show ?thesis by simp
    next
      case 3 with after [of j] j show ?thesis by auto
    qed
  qed
qed

lemma parent_in_store:
  assumes "wf_store ts" "in_store ts t"
  shows "\<exists>r. mu_json_token_parent ts (Ptr t) = Some r \<and> parent_spec ts (dep ts t) t r"
  using parent_loop_spec [OF assms, of "dep ts t"] assms(2)
  by (simp add: mu_json_token_parent_def)

lemma prev_sibling_in_store:
  assumes "wf_store ts" "in_store ts t"
  shows "\<exists>r. mu_json_token_prev_sibling ts (Ptr t) = Some r \<and>
             prev_sibling_spec ts (dep ts t) (t - 1) r"
proof (cases "t = 0")
  case True
  with assms show ?thesis
    by (simp add: mu_json_token_prev_sibling_def prev_in_store prev_sibling_spec_def)
next
  case False
  with prev_sibling_loop_spec [OF assms in_store_pred [OF assms(2) False]] assms show ?thesis
    by (simp add: mu_json_token_prev_sibling_def prev_in_store)
qed

lemma next_sibling_in_store:
  assumes "wf_store ts" "in_store ts t"
  shows "\<exists>r. mu_json_token_next_sibling ts (Ptr t) = Some r \<and>
             next_sibling_spec ts (dep ts t) (t + 1) r"
proof (cases "t + 1 = int (length ts)")
  case True
  with assms show ?thesis
    by (simp add: mu_json_token_next_sibling_def next_in_store next_sibling_spec_def)
next
  case False
  with next_sibling_loop_spec [OF assms in_store_succ [OF assms(2) False]] assms show ?thesis
    by (simp add: mu_json_token_next_sibling_def next_in_store)
qed

lemma child_in_store:
  assumes "wf_store ts" "in_store ts t"
  shows "mu_json_token_child ts (Ptr t) =
           Some (if t + 1 \<noteq> int (length ts) \<and> dep ts t < dep ts (t + 1) then Ptr (t + 1) else NULL)"
proof (cases "t + 1 = int (length ts)")
  case True
  with assms show ?thesis
    by (simp add: mu_json_token_child_def next_in_store mu_json_token_depth_def)
next
  case False
  with in_store_succ [OF assms(2) False] assms show ?thesis
    by (simp add: mu_json_token_child_def next_in_store)
qed

lemma root_in_store:
  assumes "wf_store ts" "in_store ts t"
  shows "mu_json_token_root ts (Ptr t) = Some (Ptr 0)"
  using assms by (simp add: mu_json_token_root_def root_loop_in_store)

subsection \<open>The parser at the end of the loop\<close>

lemma go_row: "list_all go_cell ([0..30] @ [255])"
  by code_simp

lemma lookup_GO:
  assumes "0 \<le> c \<and> c \<le> 30 \<or> c = 255"
  shows "lookup_state GO c = Some GO \<or> lookup_state GO c = Some ERR \<or>
         (\<exists>ns. lookup_state GO c = Some ns \<and> is_begin ns)"
proof -
  from assms have "c \<in> set ([0..30] @ [255])" by auto
  with go_row have "go_cell c" by (simp only: list_all_iff)
  then show ?thesis by (auto simp: go_cell_def split: option.splits)
qed

lemma iteration_move:
  assumes "lookup_state (p_state p) c = Some ns" "0 \<le> ns" "ns < NR_STATES"
  shows "iteration c p = Some (p\<lparr>p_state := ns, p_char_pos := p_char_pos p + 1\<rparr>)"
  using assms by (simp add: iteration_def set_state_def)

lemma iteration_start_state:
  assumes it: "iteration c p = Some p'" and c: "0 \<le> c \<and> c \<le> 30 \<or> c = 255"
    and start: "p_tokens p = [] \<longrightarrow> p_state p = GO"
  shows "p_tokens p' = [] \<longrightarrow> p_state p' = GO"
proof (cases "p_tokens p = []")
  case False
  with iteration_length [OF it] show ?thesis by auto
next
  case True
  with start have go: "p_state p = GO" by simp
  from it show ?thesis
  proof (cases rule: iteration_cases)
    case (move ns)
    with lookup_GO [OF c] go show ?thesis
      by (auto simp: is_begin_def action_defs state_defs ERR_def)
  next
    case (nomem ns d)
    with go show ?thesis by simp
  next
    case (alloc ns ty s d)
    then show ?thesis by simp
  next
    case (act ns q)
    with lookup_GO [OF c] go have "ns = ERR"
      by (auto simp: state_defs)
    then have "action ns p = Some (p\<lparr>p_error := MU_JSON_ERR_BAD_FORMAT\<rparr>)"
      by (simp add: action_def action_defs ERR_def)
    with act(4) have "q = p\<lparr>p_error := MU_JSON_ERR_BAD_FORMAT\<rparr>" by simp
    with act(5) go show ?thesis by simp
  qed
qed

lemma iteration_error:
  assumes it: "iteration c p = Some p'"
    and "p_error p \<in> {MU_JSON_ERR_NONE, MU_JSON_ERR_BAD_FORMAT, MU_JSON_ERR_NO_TOKENS}"
  shows "p_error p' \<in> {MU_JSON_ERR_NONE, MU_JSON_ERR_BAD_FORMAT, MU_JSON_ERR_NO_TOKENS}"
  using it assms(2) by (cases rule: iteration_cases) auto

lemma iteration_loop_inv:
  assumes "loop_inv p" "0 \<le> c \<and> c \<le> 30 \<or> c = 255" "iteration c p = Some p'"
  shows "loop_inv p'"
  using assms iteration_flags_inv [OF assms(3)] iteration_start_state [OF assms(3,2)]
    iteration_error [OF assms(3)] iteration_count_le_max [OF assms(3)]
  by (simp add: loop_inv_def)

lemma parse_eq:
  "int (length inp) < INT_MAX \<Longrightarrow> parse k inp = parse_loop inp (initial k inp) \<bind> endgame"
  by (simp add: parse_def initial_def)

lemma parse_Some:
  assumes "parse k inp = Some r"
  obtains q where "int (length inp) < INT_MAX" "parse_loop inp (initial k inp) = Some q"
    "endgame q = Some r"
proof -
  from assms have len: "int (length inp) < INT_MAX"
    by (simp add: parse_def split: if_splits)
  with assms parse_eq [OF len, of k] that show thesis
    by (auto split: Option.bind_splits)
qed

lemma loop_inv_initial: "loop_inv (initial k inp)"
  by (simp add: loop_inv_def initial_def flags_inv_def)

lemma parse_loop_inv:
  assumes "parse_loop mem p = Some q" "loop_inv p"
  shows "loop_inv q"
  using assms by (rule parse_loop_invariant) (rule iteration_loop_inv)

lemma wf_store_shape:
  assumes "map shape ts' = map shape ts" "wf_store ts"
  shows "wf_store ts'"
  unfolding wf_store_def
proof (intro allI impI)
  fix i assume "i < length ts'"
  with same_shape_nth [OF assms(1)] have i: "i < length ts" and len: "length ts' = length ts"
    and "shape (ts' ! i) = shape (ts ! i)"
    by auto
  then have "token_is_first (ts' ! i) = token_is_first (ts ! i)"
    "token_is_last (ts' ! i) = token_is_last (ts ! i)"
    by (auto simp: shape_def)
  with assms(2) i len show "(token_is_first (ts' ! i) \<longleftrightarrow> i = 0) \<and>
      (token_is_last (ts' ! i) \<longleftrightarrow> i + 1 = length ts')"
    by (simp add: wf_store_def)
qed

lemma finish_token_total:
  assumes "in_store (p_tokens p) i"
  shows "\<exists>q. finish_token p (Ptr i) b = Some q"
  using assms by (simp add: finish_token_def Let_def)

lemma wf_store_mark_last:
  assumes "flags_inv ts" "ts \<noteq> []"
  shows "wf_store (ts[length ts - 1 := set_is_last (ts ! (length ts - 1))])"
  unfolding wf_store_def
proof (intro allI impI)
  fix i assume "i < length (ts[length ts - 1 := set_is_last (ts ! (length ts - 1))])"
  then have i: "i < length ts" by simp
  let ?ts = "ts[length ts - 1 := set_is_last (ts ! (length ts - 1))]"
  show "(token_is_first (?ts ! i) \<longleftrightarrow> i = 0) \<and> (token_is_last (?ts ! i) \<longleftrightarrow> i + 1 = length ?ts)"
  proof (cases "i = length ts - 1")
    case True
    with i assms show ?thesis
      by (auto simp: flags_inv_def set_is_last_def token_is_first_def token_is_last_def)
  next
    case False
    with i assms show ?thesis
      by (auto simp: flags_inv_def)
  qed
qed

lemma endgame_success:
  assumes inv: "loop_inv q" and ok: "p_error q = MU_JSON_ERR_NONE" "p_depth q = 0" "p_state q = OK"
  shows "\<exists>ts. endgame q = Some (int (length (p_tokens q)), ts) \<and> wf_store ts \<and>
           length ts = length (p_tokens q) \<and> ts \<noteq> []"
proof -
  let ?ts = "p_tokens q"
  let ?l = "length ?ts - 1"
  from inv ok(3) have ne: "?ts \<noteq> []" and fl: "flags_inv ?ts"
    by (auto simp: loop_inv_def state_defs)
  then have tos: "tos q = Ptr (int (length ?ts) - 1)"
    by (simp add: tos_def token_count_def)
  from ne have in_l: "in_store ?ts (int (length ?ts) - 1)" and nat_l: "nat (int (length ?ts) - 1) = ?l"
    by (auto simp: in_store_def)
  define ts1 where "ts1 = ?ts[?l := set_is_last (?ts ! ?l)]"
  define p1 where "p1 = q\<lparr>p_tokens := ts1\<rparr>"
  have wf1: "wf_store ts1" unfolding ts1_def using fl ne by (rule wf_store_mark_last)
  have len1: "length ts1 = length ?ts" by (simp add: ts1_def)
  with ne have in0: "in_store ts1 0" and in_l1: "in_store ts1 (int (length ?ts) - 1)"
    by (auto simp: in_store_def)
  have tos1: "tos p1 = Ptr (int (length ?ts) - 1)"
    using ne by (simp add: tos_def token_count_def p1_def len1)
  from root_in_store [OF wf1 in_l1] tos1
  have root: "mu_json_token_root (p_tokens p1) (tos p1) = Some (Ptr 0)"
    by (simp add: p1_def)
  from finish_token_total [of p1 0 False] in0 obtain p2 where
    p2: "finish_token p1 (Ptr 0) False = Some p2"
    by (auto simp: p1_def)
  from finish_token_frame [OF p2] have sh: "map shape (p_tokens p2) = map shape ts1"
    by (simp add: same_frame_def p1_def)
  from wf_store_shape [OF sh wf1] have wf2: "wf_store (p_tokens p2)" .
  from sh have len2: "length (p_tokens p2) = length ?ts"
    using len1 by (auto dest: map_eq_imp_length_eq)
  have "endgame q = Some (token_count p2, p_tokens p2)"
    using ok tos in_l nat_l root p2 ne
    by (simp add: endgame_def Let_def p1_def ts1_def)
  with wf2 len2 ne show ?thesis
    by (auto simp: token_count_def)
qed

lemma endgame_cases:
  assumes "loop_inv q" "endgame q = Some (n, ts)" "0 \<le> n"
  shows "p_error q = MU_JSON_ERR_NONE \<and> p_depth q = 0 \<and> p_state q = OK"
  using assms by (auto simp: endgame_def loop_inv_def err_defs split: if_splits)

lemma parse_success:
  assumes "parse k inp = Some (n, ts)" "0 \<le> n"
  shows "wf_store ts \<and> ts \<noteq> [] \<and> n = int (length ts) \<and> length ts \<le> k"
proof -
  from assms(1) obtain q where q: "parse_loop inp (initial k inp) = Some q"
    and e: "endgame q = Some (n, ts)"
    by (rule parse_Some)
  from parse_loop_inv [OF q loop_inv_initial] have inv: "loop_inv q" .
  from endgame_cases [OF inv e assms(2)] endgame_success [OF inv] e
  have "wf_store ts \<and> ts \<noteq> [] \<and> n = int (length ts) \<and> length ts = length (p_tokens q)" by auto
  moreover from parse_loop_invariant [OF q, of "\<lambda>p. p_max_tokens p = k"]
  have "p_max_tokens q = k"
    by (auto simp: initial_def dest: iteration_max)
  ultimately show ?thesis using inv by (auto simp: loop_inv_def)
qed

subsection \<open>The whole parse and the capacity\<close>

lemma parse_loop_error: "p_error p \<noteq> MU_JSON_ERR_NONE \<Longrightarrow> parse_loop mem p = Some p"
  by (subst parse_loop.simps) simp

lemma parse_loop_length:
  assumes "parse_loop mem p = Some q"
  shows "length (p_tokens p) \<le> length (p_tokens q)"
  using assms
  by (rule parse_loop_invariant [where I = "\<lambda>x. length (p_tokens p) \<le> length (p_tokens x)"])
     (auto dest: iteration_length)

text \<open>A run that does not end in \<open>NO_TOKENS\<close> is the same with every capacity that holds
  its tokens.\<close>

lemma parse_loop_set_max:
  assumes "parse_loop mem p = Some q" "p_error q \<noteq> MU_JSON_ERR_NO_TOKENS"
    "length (p_tokens q) \<le> b"
  shows "parse_loop mem (set_max b p) = Some (set_max b q)"
  using assms
proof (induction mem p rule: parse_loop.induct)
  case (1 mem p)
  note run = "1.prems"(1) [unfolded parse_loop.simps [of mem p]]
  show ?case
  proof (cases "p_error p = MU_JSON_ERR_NONE")
    case False
    with run show ?thesis by (simp add: parse_loop_error)
  next
    case noerr: True
    show ?thesis
    proof (cases "mu_str_get_byte mem (p_json p) (p_char_pos p)")
      case None
      with run noerr have it: "iteration C_SPACE p = Some q" by simp
      from iteration_set_max [OF it "1.prems"(2,3) noerr] None noerr show ?thesis
        by (subst parse_loop.simps) simp
    next
      case (Some ch)
      with run noerr obtain p' where it: "iteration (classify_char ch) p = Some p'"
        and rest: "parse_loop mem p' = Some q"
        by (auto simp: Let_def classify_char_nonneg split: Option.bind_splits)
      have ne: "p_error p' \<noteq> MU_JSON_ERR_NO_TOKENS"
      proof
        assume e: "p_error p' = MU_JSON_ERR_NO_TOKENS"
        then have "parse_loop mem p' = Some p'" by (simp add: parse_loop_error err_defs)
        with rest e "1.prems"(2) show False by simp
      qed
      from parse_loop_length [OF rest] "1.prems"(3) have le: "length (p_tokens p') \<le> b" by simp
      from "1.IH" [OF _ Some refl classify_char_nonneg it rest "1.prems"(2,3)] noerr
      have "parse_loop mem (set_max b p') = Some (set_max b q)" by simp
      with iteration_set_max [OF it ne le noerr] Some noerr show ?thesis
        by (subst parse_loop.simps) (simp add: Let_def classify_char_nonneg)
    qed
  qed
qed

text \<open>A run that ends with more than \<open>k\<close> tokens runs out of tokens with capacity \<open>k\<close>.\<close>

lemma parse_loop_out_of_tokens:
  assumes "parse_loop mem p = Some q" "length (p_tokens p) \<le> k" "k < length (p_tokens q)"
  shows "\<exists>q'. parse_loop mem (set_max k p) = Some q' \<and> p_error q' = MU_JSON_ERR_NO_TOKENS"
  using assms
proof (induction mem p rule: parse_loop.induct)
  case (1 mem p)
  note run = "1.prems"(1) [unfolded parse_loop.simps [of mem p]]
  show ?case
  proof (cases "p_error p = MU_JSON_ERR_NONE")
    case False
    with run "1.prems"(2,3) show ?thesis by simp
  next
    case noerr: True
    have full: "\<exists>q'. parse_loop mem (set_max k p) = Some q' \<and> p_error q' = MU_JSON_ERR_NO_TOKENS"
      if it: "iteration c p = Some p'" and gt: "k < length (p_tokens p')"
        and c: "mu_str_get_byte mem (p_json p) (p_char_pos p) = None \<and> c = C_SPACE \<or>
                (\<exists>ch. mu_str_get_byte mem (p_json p) (p_char_pos p) = Some ch \<and> c = classify_char ch)"
      for c p'
    proof -
      from iteration_length [OF it] gt "1.prems"(2) have k: "k = length (p_tokens p)"
        and "length (p_tokens p) < length (p_tokens p')" by auto
      from iteration_out_of_tokens [OF it this(2)] k obtain p'' where
        p'': "iteration c (set_max k p) = Some p''" "p_error p'' = MU_JSON_ERR_NO_TOKENS"
        by auto
      then have "parse_loop mem p'' = Some p''" by (simp add: parse_loop_error err_defs)
      with p'' c noerr show ?thesis
        by (subst parse_loop.simps) (auto simp: Let_def classify_char_nonneg)
    qed
    show ?thesis
    proof (cases "mu_str_get_byte mem (p_json p) (p_char_pos p)")
      case None
      with run noerr have it: "iteration C_SPACE p = Some q" by simp
      from full [OF it "1.prems"(3)] None show ?thesis by simp
    next
      case (Some ch)
      with run noerr obtain p' where it: "iteration (classify_char ch) p = Some p'"
        and rest: "parse_loop mem p' = Some q"
        by (auto simp: Let_def classify_char_nonneg split: Option.bind_splits)
      show ?thesis
      proof (cases "k < length (p_tokens p')")
        case True
        from full [OF it True] Some show ?thesis by simp
      next
        case False
        then have le: "length (p_tokens p') \<le> k" by simp
        have ne: "p_error p' \<noteq> MU_JSON_ERR_NO_TOKENS"
        proof
          assume e: "p_error p' = MU_JSON_ERR_NO_TOKENS"
          then have "parse_loop mem p' = Some p'" by (simp add: parse_loop_error err_defs)
          with rest le "1.prems"(3) show False by simp
        qed
        from "1.IH" [OF _ Some refl classify_char_nonneg it rest le "1.prems"(3)] noerr
        obtain q' where "parse_loop mem (set_max k p') = Some q'"
          "p_error q' = MU_JSON_ERR_NO_TOKENS" by auto
        with iteration_set_max [OF it ne le noerr] Some noerr show ?thesis
          by (subst parse_loop.simps) (simp add: Let_def classify_char_nonneg)
      qed
    qed
  qed
qed

lemma endgame_set_max: "endgame (set_max b q) = endgame q"
proof -
  have tc: "token_count (set_max b x) = token_count x" for x
    by (simp add: token_count_def)
  have upd: "set_max b q\<lparr>p_tokens := ts\<rparr> = set_max b (q\<lparr>p_tokens := ts\<rparr>)" for ts
    by (simp add: set_max_def)
  show ?thesis
    unfolding endgame_def Let_def
    by (cases "tos q")
       (simp_all add: upd finish_token_set_max tc
          Option.bind_map_option comp_def cong: Option.bind_cong)
qed

lemma initial_set_max: "set_max b (initial a inp) = initial b inp"
  by (simp add: set_max_def initial_def)

lemma endgame_length:
  assumes "loop_inv q" "endgame q = Some (n, ts)"
  shows "length ts = length (p_tokens q) \<and> (n = MU_JSON_ERR_NO_TOKENS \<longleftrightarrow> p_error q = MU_JSON_ERR_NO_TOKENS)"
proof (cases "p_error q = MU_JSON_ERR_NONE \<and> p_depth q = 0 \<and> p_state q = OK")
  case True
  with endgame_success [OF assms(1)] assms(2) show ?thesis
    by (auto simp: err_defs)
next
  case False
  with assms show ?thesis
    by (auto simp: endgame_def loop_inv_def err_defs split: if_splits)
qed

lemma parse_capacity:
  assumes "parse a inp = Some (n, ts)" "n \<noteq> MU_JSON_ERR_NO_TOKENS" "length ts \<le> b"
  shows "parse b inp = Some (n, ts)"
proof -
  from assms(1) obtain q where len: "int (length inp) < INT_MAX"
    and q: "parse_loop inp (initial a inp) = Some q" and e: "endgame q = Some (n, ts)"
    by (rule parse_Some)
  from parse_loop_inv [OF q loop_inv_initial] have inv: "loop_inv q" .
  from endgame_length [OF inv e] assms(2,3)
  have "p_error q \<noteq> MU_JSON_ERR_NO_TOKENS" "length (p_tokens q) \<le> b" by auto
  from parse_loop_set_max [OF q this] e show ?thesis
    by (simp add: parse_eq [OF len] initial_set_max endgame_set_max)
qed

lemma parse_out_of_tokens:
  assumes "parse m inp = Some (n, ts)" "0 \<le> n" "int k < n"
  shows "\<exists>ts'. parse k inp = Some (MU_JSON_ERR_NO_TOKENS, ts')"
proof -
  from assms(1) obtain q where len: "int (length inp) < INT_MAX"
    and q: "parse_loop inp (initial m inp) = Some q" and e: "endgame q = Some (n, ts)"
    by (rule parse_Some)
  from parse_loop_inv [OF q loop_inv_initial] have inv: "loop_inv q" .
  from parse_success [OF assms(1,2)] endgame_length [OF inv e] assms(3)
  have kl: "k < length (p_tokens q)" by auto
  have "length (p_tokens (initial m inp)) \<le> k" by (simp add: initial_def)
  from parse_loop_out_of_tokens [OF q this kl] obtain q' where
    "parse_loop inp (set_max k (initial m inp)) = Some q'" "p_error q' = MU_JSON_ERR_NO_TOKENS"
    by blast
  then have "parse_loop inp (initial k inp) = Some q'" "p_error q' = MU_JSON_ERR_NO_TOKENS"
    by (simp_all add: initial_set_max)
  then show ?thesis
    by (simp add: parse_eq [OF len] endgame_def err_defs)
qed

subsection \<open>The text, character by character\<close>

lemma table_cells: "cells_ok 0 0 state_transition_table"
  by code_simp

lemma all_chars: "list_all char_ok [0..<256]"
  by code_simp

lemma ES_space: "lookup_state ES C_SPACE = Some ERR"
  by code_simp

lemma cells_ok_nth:
  "cells_ok s c xs \<Longrightarrow> 0 \<le> c \<Longrightarrow> c \<le> 30 \<Longrightarrow> i < length xs \<Longrightarrow>
     entry_ok (s + (c + int i) div 31) ((c + int i) mod 31) (xs ! i)"
proof (induction xs arbitrary: s c i)
  case Nil
  then show ?case by simp
next
  case (Cons ns rest)
  show ?case
  proof (cases i)
    case 0
    with Cons.prems show ?thesis by simp
  next
    case (Suc j)
    show ?thesis
    proof (cases "c = 30")
      case True
      with Cons.prems Suc have "cells_ok (s + 1) 0 rest" "j < length rest" by simp_all
      from Cons.IH [OF this(1) _ _ this(2)]
      have "entry_ok (s + 1 + int j div 31) (int j mod 31) (rest ! j)" by simp
      moreover have "(30 + int (Suc j)) div 31 = 1 + int j div 31"
        "(30 + int (Suc j)) mod 31 = int j mod 31" by simp_all
      ultimately show ?thesis using True Suc by (simp add: add.assoc)
    next
      case False
      with Cons.prems Suc have "cells_ok s (c + 1) rest" "j < length rest" "0 \<le> c + 1" "c + 1 \<le> 30"
        by simp_all
      from Cons.IH [OF this(1,3,4,2)]
      have "entry_ok (s + (c + 1 + int j) div 31) ((c + 1 + int j) mod 31) (rest ! j)" .
      moreover have "c + 1 + int j = c + int (Suc j)" by simp
      ultimately show ?thesis using Suc by (simp only: nth_Cons_Suc)
    qed
  qed
qed

lemma cell_ok:
  assumes "0 \<le> s" "s \<le> 30" "0 \<le> c" "c \<le> 30"
  shows "\<exists>ns. lookup_state s c = Some ns \<and> entry_ok s c ns"
proof -
  have len: "length state_transition_table = 961" by (simp add: state_transition_table_def)
  from assms have "s * 31 + c \<le> 30 * 31 + 30" by (intro add_mono mult_right_mono) simp_all
  with assms have i: "nat (s * 31 + c) < length state_transition_table" "0 \<le> s * 31 + c"
    by (simp_all add: len)
  from cells_ok_nth [OF table_cells _ _ i(1)] i(2) assms
  have "entry_ok s c (state_transition_table ! nat (s * 31 + c))" by simp
  with i show ?thesis by (simp add: lookup_state_def NR_CLASSES_def Let_def)
qed

lemma scan_Suc:
  "m < length inp \<Longrightarrow> scan inp (Suc m) = lex_char (scan inp m) (inp ! m)"
  by (simp add: scan_def take_Suc_conv_app_nth)

lemma scan_beyond: "length inp \<le> m \<Longrightarrow> scan inp m = scan inp (length inp)"
  by (simp add: scan_def)

lemma lex_char_level:
  "snd (lex_char st ch) \<le> snd st + 1"
  "snd (lex_char st ch) = snd st + 1 \<Longrightarrow> fst st = Outside \<and> (ch = CHR ''['' \<or> ch = CHR ''{'')"
  by (cases st; cases "fst st"; auto split: if_splits)+

lemma level_Suc_le: "level inp (Suc m) \<le> level inp m + 1"
proof (cases "m < length inp")
  case True
  then show ?thesis by (simp add: level_def scan_Suc lex_char_level(1))
next
  case False
  then have "scan inp (Suc m) = scan inp m" by (simp add: scan_def)
  then show ?thesis by (simp add: level_def)
qed

lemma level_Suc_rise:
  assumes "level inp m < level inp (Suc m)"
  shows "m < length inp \<and> fst (scan inp m) = Outside \<and> (inp ! m = CHR ''['' \<or> inp ! m = CHR ''{'')"
proof (cases "m < length inp")
  case True
  with assms level_Suc_le [of inp m] have "snd (lex_char (scan inp m) (inp ! m)) = snd (scan inp m) + 1"
    by (simp add: level_def scan_Suc)
  from lex_char_level(2) [OF this] True show ?thesis by simp
next
  case False
  then have "scan inp (Suc m) = scan inp m" by (simp add: scan_def)
  with assms show ?thesis by (simp add: level_def)
qed

lemma of_char_char_ok: "char_ok (of_char ch)"
proof -
  have "(of_char ch :: nat) < 256" by simp
  then have "(of_char ch :: nat) \<in> set [0..<256]" by simp
  with all_chars show ?thesis by (simp only: list_all_iff)
qed

lemma lex_char_class: "lex_char st ch = lex_class st (classify_char ch)"
proof -
  from of_char_char_ok [of ch] have
    "(classify_char ch = C_QUOTE \<longleftrightarrow> ch = CHR 0x22) \<and> (classify_char ch = C_BACKS \<longleftrightarrow> ch = CHR 0x5C) \<and>
     (classify_char ch = C_LSQRB \<longleftrightarrow> ch = CHR ''['') \<and> (classify_char ch = C_LCURB \<longleftrightarrow> ch = CHR ''{'') \<and>
     (classify_char ch = C_RSQRB \<longleftrightarrow> ch = CHR '']'') \<and> (classify_char ch = C_RCURB \<longleftrightarrow> ch = CHR ''}'')"
    by (simp add: char_ok_def Let_def)
  then show ?thesis
    by (cases st; cases "fst st") (auto simp: lex_class_def class_defs)
qed

lemma lex_class_shift:
  "lex_class (l, n) c = (fst (lex_class (l, 0) c), n + snd (lex_class (l, 0) c))"
  by (cases l) (simp_all add: lex_class_def)

lemma inside_next: "inside inp a (Suc a) \<longleftrightarrow> level inp a < level inp (Suc a)"
proof -
  have "{a<..Suc a} = {Suc a}" by auto
  then show ?thesis by (simp add: inside_def)
qed

subsection \<open>Where the tokens begin\<close>

lemma mu_str_slice_buf:
  assumes "0 \<le> a" "a \<le> int (str_length src)" "a < INT_MAX"
  shows "buf (mu_str_slice src a e) = buf src + a"
  using assms by (simp add: mu_str_slice_def Let_def mu_str_init_def MU_STR_END_def)

lemma mu_str_slice_rest:
  assumes "0 \<le> a" "a \<le> int (str_length src)" "a < INT_MAX"
  shows "int (str_length (mu_str_slice src a MU_STR_END)) = int (str_length src) - a"
  using assms by (simp add: mu_str_slice_def Let_def mu_str_init_def MU_STR_END_def)

lemma marks_update:
  assumes "i < length ts" "origin t' = origin (ts ! i)" "depth t' = depth (ts ! i)"
  shows "marks (ts[i := t']) = marks ts"
  using assms by (simp add: marks_def map_update list_update_same_conv)

lemma anchored_update:
  assumes "\<forall>t \<in> set ts. anchored L t" "anchored L t'"
  shows "\<forall>t \<in> set (ts[i := t']). anchored L t"
  using assms by (auto dest!: set_update_subset_insert [THEN subsetD])

lemma finish_token_marks:
  assumes fin: "finish_token p t b = Some q" and js: "p_json p = mu_str_init 0 L"
    and len: "int L < INT_MAX" and anc: "\<forall>t \<in> set (p_tokens p). anchored L t"
  shows "marks (p_tokens q) = marks (p_tokens p) \<and> (\<forall>t \<in> set (p_tokens q). anchored L t)"
proof (cases t)
  case NULL
  with fin have "q = p" by (simp add: finish_token_def)
  with anc show ?thesis by simp
next
  case (Ptr i)
  with fin obtain tk where tk: "deref (p_tokens p) (Ptr i) = Some tk"
    by (auto simp: finish_token_def split: Option.bind_splits)
  then have i: "0 \<le> i" "nat i < length (p_tokens p)" and tk_eq: "tk = p_tokens p ! nat i"
    by (auto simp: deref.simps split: if_splits)
  show ?thesis
  proof (cases "token_is_sealed tk")
    case True
    with fin Ptr tk have "q = p" by (simp add: finish_token_def)
    with anc show ?thesis by simp
  next
    case False
    define e where "e = (if b then p_char_pos p + 1 else p_char_pos p)"
    define tk' where "tk' = seal_token (tk\<lparr>json := mu_str_slice (p_json p)
        (int (mu_str_length (p_json p)) - int (mu_str_length (json tk))) e\<rparr>)"
    from fin Ptr tk False have q: "q = p\<lparr>p_tokens := (p_tokens p)[nat i := tk']\<rparr>"
      by (simp add: finish_token_def Let_def tk'_def e_def)
    from anc i tk_eq have a: "anchored L tk" by simp
    with False have st: "int (mu_str_length (p_json p)) - int (mu_str_length (json tk)) = buf (json tk)"
      and rng: "0 \<le> buf (json tk)" "buf (json tk) \<le> int L"
      by (simp_all add: anchored_def js mu_str_init_def mu_str_length_def)
    from rng len have "buf (mu_str_slice (p_json p) (buf (json tk)) e) = buf (json tk)"
      by (subst mu_str_slice_buf) (simp_all add: js mu_str_init_def)
    then have b': "buf (json tk') = buf (json tk)"
      by (simp add: tk'_def st seal_token_def)
    then have "origin tk' = origin tk" "depth tk' = depth tk"
      by (simp_all add: origin_def tk'_def seal_token_def)
    with i tk_eq have m: "marks ((p_tokens p)[nat i := tk']) = marks (p_tokens p)"
      by (intro marks_update) simp_all
    have "token_is_sealed tk'" by (simp add: tk'_def seal_token_def token_is_sealed_def)
    with b' rng have "anchored L tk'" by (simp add: anchored_def)
    with anc have "\<forall>t \<in> set ((p_tokens p)[nat i := tk']). anchored L t"
      by (rule anchored_update)
    with m q show ?thesis by simp
  qed
qed

lemma finish_token_keeps:
  assumes "finish_token p t b = Some q"
  shows "p_json q = p_json p" "p_char_pos q = p_char_pos p" "p_depth q = p_depth p"
    "p_state q = p_state p" "p_error q = p_error p"
  using finish_token_effect [OF assms] by auto

lemma finish_container_marks:
  assumes fin: "finish_container p ty = Some q" and js: "p_json p = mu_str_init 0 L"
    and len: "int L < INT_MAX" and anc: "\<forall>t \<in> set (p_tokens p). anchored L t"
  shows "marks (p_tokens q) = marks (p_tokens p) \<and> (\<forall>t \<in> set (p_tokens q). anchored L t)"
proof -
  from fin obtain p1 where
    p1: "(\<exists>p' c. finish_token p (tos p) False = Some p' \<and> finish_token p' c True = Some p1) \<or>
         (\<exists>c. finish_token p c True = Some p1)"
    and q: "q = set_state (p1\<lparr>p_depth := p_depth p1 - 1\<rparr>) OK"
    unfolding finish_container_def Let_def
    by (auto split: Option.bind_splits if_splits)
  from p1 have "marks (p_tokens p1) = marks (p_tokens p) \<and> (\<forall>t \<in> set (p_tokens p1). anchored L t)"
  proof
    assume "\<exists>p' c. finish_token p (tos p) False = Some p' \<and> finish_token p' c True = Some p1"
    then obtain p' c where a: "finish_token p (tos p) False = Some p'"
      and b: "finish_token p' c True = Some p1" by blast
    from finish_token_marks [OF a js len anc] finish_token_keeps(1) [OF a] js
    have "marks (p_tokens p') = marks (p_tokens p)" "\<forall>t \<in> set (p_tokens p'). anchored L t"
      "p_json p' = mu_str_init 0 L" by simp_all
    with finish_token_marks [OF b this(3) len this(2)] show ?thesis by simp
  next
    assume "\<exists>c. finish_token p c True = Some p1"
    then obtain c where "finish_token p c True = Some p1" by blast
    from finish_token_marks [OF this js len anc] show ?thesis .
  qed
  with q show ?thesis by (simp add: set_state_def)
qed

lemma new_token_origin:
  assumes "p_json p = mu_str_init 0 L" "0 \<le> p_char_pos p" "p_char_pos p \<le> int L" "int L < INT_MAX"
  shows "origin (new_token p ty) = nat (p_char_pos p)"
  using assms by (simp add: origin_def new_token_def mu_str_slice_buf mu_str_init_def)

lemma anchored_set_is_last [simp]: "anchored L (set_is_last t) = anchored L t"
  by (simp add: anchored_def set_is_last_def token_is_sealed_def)

subsection \<open>One turn of the loop and the text\<close>

lemma select_state_range:
  assumes "select_state ts tok a b c d = Some s"
  shows "s = ERR \<or> s = a \<or> s = b \<or> s = c \<or> s = d"
  using assms unfolding select_state_def Let_def
  by (auto split: Option.bind_splits if_splits)

lemma lex_of_state_simps [simp]:
  "lex_of_state ERR = Outside" "lex_of_state OK = Outside" "lex_of_state VA = Outside"
  "lex_of_state KE = Outside" "lex_of_state CO = Outside" "lex_of_state AR = Outside"
  "lex_of_state OB = Outside" "lex_of_state GO = Outside" "lex_of_state ST = Inside"
  "lex_of_state IN = Outside" "lex_of_state F1 = Outside" "lex_of_state MI = Outside"
  "lex_of_state N1 = Outside" "lex_of_state T1 = Outside" "lex_of_state ZE = Outside"
  by (simp_all add: lex_of_state_def state_defs ERR_def)

lemma action_other_text:
  assumes act: "action ns p = Some q" and nb: "\<not> is_begin ns"
    and ok: "p_error q = MU_JSON_ERR_NONE"
  shows "(ns = Fa \<or> ns = Fo) \<and> p_depth q = p_depth p - 1 \<and> lex_of_state (p_state q) = Outside \<or>
         (ns = Pl \<or> ns = Pm \<or> ns = Pq) \<and> p_depth q = p_depth p \<and>
            lex_of_state (p_state q) = Outside \<or>
         ns = Ps \<and> p_depth q = p_depth p \<and>
            (lex_of_state (p_state q) = Outside \<or> p_state q = p_state p)"
proof -
  consider "ns = Fa" | "ns = Fo" | "ns = Pl" | "ns = Pm" | "ns = Ps" | "ns = Pq"
    | "ns \<notin> {Ba, Bd, Bf, Bm, Bn, Bo, Bs, Bt, Bz, Fa, Fo, Pl, Pm, Ps, Pq}"
    using nb unfolding is_begin_def by blast
  then show ?thesis
  proof cases
    case 1
    with act have "finish_container p MU_JSON_TOKEN_TYPE_ARRAY = Some q"
      by (simp add: action_def action_defs)
    from finish_container_effect [OF this] 1 show ?thesis by auto
  next
    case 2
    with act have "finish_container p MU_JSON_TOKEN_TYPE_OBJECT = Some q"
      by (simp add: action_def action_defs)
    from finish_container_effect [OF this] 2 show ?thesis by auto
  next
    case 3
    with act obtain p1 s where f: "finish_token p (tos p) False = Some p1"
      and s: "select_state (p_tokens p1) (tos p) ERR ERR ERR VA = Some s" and q: "q = set_state p1 s"
      by (auto simp: action_def action_defs Let_def split: Option.bind_splits)
    from select_state_range [OF s] finish_token_keeps [OF f] q 3 show ?thesis
      by (auto simp: set_state_def)
  next
    case 4
    with act obtain p1 s where f: "finish_token p (tos p) False = Some p1"
      and s: "select_state (p_tokens p1) (tos p) ERR VA KE ERR = Some s" and q: "q = set_state p1 s"
      by (auto simp: action_def action_defs Let_def split: Option.bind_splits)
    from select_state_range [OF s] finish_token_keeps [OF f] q 4 show ?thesis
      by (auto simp: set_state_def)
  next
    case 5
    with act obtain p1 s where f: "finish_token p (tos p) False = Some p1 \<or> p1 = p"
      and s: "select_state (p_tokens p1) (tos p) OK OK OK (p_state p1) = Some s"
      and q: "q = set_state p1 s"
      by (auto simp: action_def action_defs Let_def split: Option.bind_splits if_splits)
    from f finish_token_keeps [of p "tos p" False p1]
    have "p_depth p1 = p_depth p" "p_state p1 = p_state p" by auto
    with select_state_range [OF s] q 5 show ?thesis
      by (auto simp: set_state_def)
  next
    case 6
    with act obtain p1 s where f: "finish_token p (tos p) True = Some p1"
      and s: "select_state (p_tokens p1) (tos p) OK OK OK CO = Some s" and q: "q = set_state p1 s"
      by (auto simp: action_def action_defs Let_def split: Option.bind_splits)
    from select_state_range [OF s] finish_token_keeps [OF f] q 6 show ?thesis
      by (auto simp: set_state_def)
  next
    case 7
    with act have "q = p\<lparr>p_error := MU_JSON_ERR_BAD_FORMAT\<rparr>"
      by (simp add: action_def)
    with ok show ?thesis by (simp add: err_defs)
  qed
qed

lemma action_other_marks:
  assumes act: "action ns p = Some q" and nb: "\<not> is_begin ns"
    and js: "p_json p = mu_str_init 0 L"
    and len: "int L < INT_MAX" and anc: "\<forall>t \<in> set (p_tokens p). anchored L t"
  shows "marks (p_tokens q) = marks (p_tokens p) \<and> (\<forall>t \<in> set (p_tokens q). anchored L t)"
proof -
  consider "ns = Fa" | "ns = Fo" | "ns = Pl" | "ns = Pm" | "ns = Ps" | "ns = Pq"
    | "ns \<notin> {Ba, Bd, Bf, Bm, Bn, Bo, Bs, Bt, Bz, Fa, Fo, Pl, Pm, Ps, Pq}"
    using nb unfolding is_begin_def by blast
  then show ?thesis
  proof cases
    case 1
    with act have "finish_container p MU_JSON_TOKEN_TYPE_ARRAY = Some q"
      by (simp add: action_def action_defs)
    from finish_container_marks [OF this js len anc] show ?thesis .
  next
    case 2
    with act have "finish_container p MU_JSON_TOKEN_TYPE_OBJECT = Some q"
      by (simp add: action_def action_defs)
    from finish_container_marks [OF this js len anc] show ?thesis .
  next
    case 3
    with act obtain p1 s where f: "finish_token p (tos p) False = Some p1" and q: "q = set_state p1 s"
      by (auto simp: action_def action_defs Let_def split: Option.bind_splits)
    from finish_token_marks [OF f js len anc] q show ?thesis by (simp add: set_state_def)
  next
    case 4
    with act obtain p1 s where f: "finish_token p (tos p) False = Some p1" and q: "q = set_state p1 s"
      by (auto simp: action_def action_defs Let_def split: Option.bind_splits)
    from finish_token_marks [OF f js len anc] q show ?thesis by (simp add: set_state_def)
  next
    case 5
    with act obtain p1 s where f: "finish_token p (tos p) False = Some p1 \<or> p1 = p"
      and q: "q = set_state p1 s"
      by (auto simp: action_def action_defs Let_def split: Option.bind_splits if_splits)
    from f finish_token_marks [of p "tos p" False p1, OF _ js len anc] anc q show ?thesis
      by (auto simp: set_state_def)
  next
    case 6
    with act obtain p1 s where f: "finish_token p (tos p) True = Some p1" and q: "q = set_state p1 s"
      by (auto simp: action_def action_defs Let_def split: Option.bind_splits)
    from finish_token_marks [OF f js len anc] q show ?thesis by (simp add: set_state_def)
  next
    case 7
    with act have "q = p\<lparr>p_error := MU_JSON_ERR_BAD_FORMAT\<rparr>"
      by (simp add: action_def)
    with anc show ?thesis by simp
  qed
qed

lemma is_begin_not_state: "is_begin ns \<Longrightarrow> \<not> (0 \<le> ns \<and> ns < NR_STATES)"
  by (auto simp: is_begin_def action_defs NR_STATES_def)

lemma iteration_begin:
  assumes "lookup_state (p_state p) c = Some ns" "is_begin ns"
    "length (p_tokens p) < p_max_tokens p"
  shows "\<exists>ty bs. iteration c p =
           Some (p\<lparr>p_tokens := p_tokens p @ [new_token p ty], p_state := bs,
                   p_depth := p_depth p + (if ns = Ba \<or> ns = Bo then 1 else 0),
                   p_char_pos := p_char_pos p + 1\<rparr>) \<and>
           lex_of_state bs = (if ns = Bs then Inside else Outside)"
proof -
  from assms(2) consider "ns = Ba" | "ns = Bd" | "ns = Bf" | "ns = Bm" | "ns = Bn" | "ns = Bo"
    | "ns = Bs" | "ns = Bt" | "ns = Bz"
    by (auto simp: is_begin_def)
  then show ?thesis
    using assms(1,3) is_begin_not_state [OF assms(2)]
    by cases
      (auto simp: iteration_def action_def std_alloc_effect Let_def action_defs
            intro!: exI)
qed

lemma lookup_state_range:
  assumes "lookup_state s c = Some ns" "0 \<le> c" "c \<le> 30"
  shows "0 \<le> s \<and> s \<le> 30"
proof -
  have len: "length state_transition_table = 961" by (simp add: state_transition_table_def)
  from assms(1) have "0 \<le> s * 31 + c" "s * 31 + c < 961"
    by (simp_all add: lookup_state_def NR_CLASSES_def Let_def len split: if_splits)
  with assms(2,3) show ?thesis by presburger
qed

lemma entry_ok_state:
  assumes "entry_ok s c ns" "0 \<le> ns" "ns < NR_STATES"
  shows "fst (lex_class (lex_of_state s, 0) c) = lex_of_state ns \<and>
         snd (lex_class (lex_of_state s, 0) c) = 0"
  using assms by (auto simp: entry_ok_def Let_def)

lemma entry_ok_begin:
  assumes "entry_ok s c ns" "is_begin ns"
  shows "fst (lex_class (lex_of_state s, 0) c) = (if ns = Bs then Inside else Outside) \<and>
         snd (lex_class (lex_of_state s, 0) c) = (if ns = Ba \<or> ns = Bo then 1 else 0)"
  using assms by (auto simp: entry_ok_def Let_def is_begin_def action_defs NR_STATES_def)

lemma entry_ok_finish:
  assumes "entry_ok s c ns" "ns = Fa \<or> ns = Fo"
  shows "fst (lex_class (lex_of_state s, 0) c) = Outside \<and>
         snd (lex_class (lex_of_state s, 0) c) = - 1"
  using assms by (auto simp: entry_ok_def Let_def action_defs NR_STATES_def)

lemma entry_ok_punct:
  assumes "entry_ok s c ns" "ns = Pl \<or> ns = Pm \<or> ns = Pq \<or> ns = Ps"
  shows "fst (lex_class (lex_of_state s, 0) c) = Outside \<and>
         snd (lex_class (lex_of_state s, 0) c) = 0 \<and> (ns = Ps \<longrightarrow> lex_of_state s = Outside)"
  using assms by (auto simp: entry_ok_def Let_def action_defs NR_STATES_def)

lemma lex_of_state_Escaped: "lex_of_state s = Escaped \<longleftrightarrow> s = ES"
  by (simp add: lex_of_state_def)

lemma lex_class_space: "l \<noteq> Escaped \<Longrightarrow> lex_class (l, d) C_SPACE = (l, d)"
  by (cases l) (simp_all add: lex_class_def class_defs)

lemma lex_class_opener:
  assumes "ch = CHR ''['' \<or> ch = CHR ''{''"
  shows "lex_class (Outside, 0) (classify_char ch) = (Outside, 1)"
  using assms lex_char_class [of "(Outside, 0)" ch] by auto

lemma text_inv_step:
  assumes inv: "text_inv inp p" and ok: "p_error p = MU_JSON_ERR_NONE"
    and len: "int (length inp) < INT_MAX" and pos: "p_char_pos p \<le> int (length inp)"
    and c: "0 \<le> c" "c \<le> 30"
    and ch: "p_char_pos p < int (length inp) \<longrightarrow> c = classify_char (inp ! nat (p_char_pos p))"
    and eos: "p_char_pos p = int (length inp) \<longrightarrow> c = C_SPACE"
    and it: "iteration c p = Some p'"
  shows "text_inv inp p'"
proof -
  define n where "n = nat (p_char_pos p)"
  define l' where "l' = fst (lex_class (lex_of_state (p_state p), 0) c)"
  define d where "d = snd (lex_class (lex_of_state (p_state p), 0) c)"
  from inv have js: "p_json p = mu_str_init 0 (length inp)" and pos0: "0 \<le> p_char_pos p"
    and anc: "\<forall>t \<in> set (p_tokens p). anchored (length inp) t"
    and mk: "\<forall>x \<in> set (marks (p_tokens p)).
        int (fst x) < p_char_pos p \<and> snd x = int16_of_int (level inp (fst x))"
    and srt: "sorted_wrt (<) (map fst (marks (p_tokens p)))"
    by (simp_all add: text_inv_def)
  from inv ok have sc: "scan inp n = (lex_of_state (p_state p), p_depth p)"
    and op: "\<forall>a < n. a < length inp \<and> fst (scan inp a) = Outside \<and>
           (inp ! a = CHR ''['' \<or> inp ! a = CHR ''{'') \<longrightarrow>
           a \<in> fst ` set (marks (p_tokens p))"
    by (simp_all add: text_inv_def n_def)
  from pos0 have n': "nat (p_char_pos p + 1) = Suc n" and n_int: "int n = p_char_pos p"
    by (simp_all add: n_def)
  from it obtain ns where ns: "lookup_state (p_state p) c = Some ns"
    by (auto simp: iteration_def split: Option.bind_splits)
  from lookup_state_range [OF ns c] have "0 \<le> p_state p" "p_state p \<le> 30" by simp_all
  from cell_ok [OF this c] ns have entry: "entry_ok (p_state p) c ns" by simp
  have lexstep: "scan inp (Suc n) = (l', p_depth p + d)"
    if "\<not> (p_state p = ES \<and> p_char_pos p = int (length inp))"
  proof (cases "p_char_pos p < int (length inp)")
    case True
    with pos0 have "n < length inp" by (simp add: n_def)
    moreover from True ch have "c = classify_char (inp ! n)" by (simp add: n_def)
    ultimately have "scan inp (Suc n) = lex_class (lex_of_state (p_state p), p_depth p) c"
      by (simp add: scan_Suc lex_char_class sc)
    then show ?thesis
      by (simp add: l'_def d_def lex_class_shift [of _ "p_depth p"])
  next
    case False
    with pos have e: "p_char_pos p = int (length inp)" by simp
    with that have "lex_of_state (p_state p) \<noteq> Escaped" by (simp add: lex_of_state_Escaped)
    from lex_class_space [OF this] eos e have "l' = lex_of_state (p_state p)" "d = 0"
      by (simp_all add: l'_def d_def)
    moreover from e have "scan inp (Suc n) = scan inp n"
      by (simp add: n_def scan_def)
    ultimately show ?thesis by (simp add: sc)
  qed
  have esc: "ns = ERR" if "p_state p = ES \<and> p_char_pos p = int (length inp)"
    using that eos ES_space ns by simp
  have rise: "d = 1"
    if "n < length inp" "fst (scan inp n) = Outside" "inp ! n = CHR ''['' \<or> inp ! n = CHR ''{''"
  proof -
    from that(1) ch have "c = classify_char (inp ! n)" by (simp add: n_def)
    with lex_class_opener [OF that(3)] that(2) sc show ?thesis by (simp add: d_def)
  qed
  from it show ?thesis
  proof (cases rule: iteration_cases)
    case (move ns')
    with ns have eq: "ns' = ns" by simp
    from entry_ok_state [OF entry] move(2,3) eq have l: "lex_of_state ns = l'" and d0: "d = 0"
      by (simp_all add: l'_def d_def)
    have "\<not> (p_state p = ES \<and> p_char_pos p = int (length inp))"
      using esc move(2,3) eq by (auto simp: ERR_def NR_STATES_def)
    from lexstep [OF this] l d0 have sc': "scan inp (Suc n) = (lex_of_state ns, p_depth p)" by simp
    have op': "a \<in> fst ` set (marks (p_tokens p))"
      if "a < Suc n" "a < length inp" "fst (scan inp a) = Outside"
         "inp ! a = CHR ''['' \<or> inp ! a = CHR ''{''" for a
    proof (cases "a = n")
      case True
      with rise that d0 show ?thesis by simp
    next
      case False
      with that op show ?thesis by simp
    qed
    from js pos0 anc mk srt sc' op' show ?thesis
      unfolding text_inv_def move(4) eq by (auto simp: n')
  next
    case (nomem ns' dd)
    from js pos0 anc mk srt show ?thesis
      unfolding text_inv_def nomem(4) by (auto simp: err_defs)
  next
    case (alloc ns' ty0 s0 d0)
    with ns have eq: "ns' = ns" by simp
    from iteration_begin [OF ns] alloc(2,3) eq it obtain ty bs where
      p': "p' = p\<lparr>p_tokens := p_tokens p @ [new_token p ty], p_state := bs,
                   p_depth := p_depth p + (if ns = Ba \<or> ns = Bo then 1 else 0),
                   p_char_pos := p_char_pos p + 1\<rparr>"
      and bs: "lex_of_state bs = (if ns = Bs then Inside else Outside)"
      by auto
    from entry_ok_begin [OF entry] alloc(2) eq bs
    have l: "lex_of_state bs = l'" and dd: "d = (if ns = Ba \<or> ns = Bo then 1 else 0)"
      by (simp_all add: l'_def d_def)
    have "\<not> (p_state p = ES \<and> p_char_pos p = int (length inp))"
      using esc alloc(2) eq by (auto simp: ERR_def is_begin_def action_defs)
    from lexstep [OF this] l dd
    have sc': "scan inp (Suc n) = (lex_of_state bs, p_depth p + (if ns = Ba \<or> ns = Bo then 1 else 0))"
      by simp
    from pos0 pos len have b: "buf (json (new_token p ty)) = p_char_pos p"
      by (simp add: new_token_def mu_str_slice_buf js mu_str_init_def)
    then have o: "origin (new_token p ty) = n" by (simp add: origin_def n_def)
    from sc have "p_depth p = level inp n" by (simp add: level_def)
    then have dp: "depth (new_token p ty) = int16_of_int (level inp n)"
      by (simp add: new_token_def)
    from pos0 pos len have "int (str_length (json (new_token p ty))) = int (length inp) - p_char_pos p"
      by (simp add: new_token_def mu_str_slice_rest js mu_str_init_def)
    with b pos0 pos have an: "anchored (length inp) (new_token p ty)"
      by (simp add: anchored_def)
    have m: "marks (p_tokens p @ [new_token p ty]) = marks (p_tokens p) @ [(n, int16_of_int (level inp n))]"
      by (simp add: marks_def o dp)
    from mk have lt: "\<forall>x \<in> set (marks (p_tokens p)). fst x < n"
      by (auto simp: n_def)
    with srt have srt': "sorted_wrt (<) (map fst (marks (p_tokens p) @ [(n, int16_of_int (level inp n))]))"
      by (simp add: sorted_wrt_append)
    have mk': "\<forall>x \<in> set (marks (p_tokens p) @ [(n, int16_of_int (level inp n))]).
        int (fst x) < p_char_pos p + 1 \<and> snd x = int16_of_int (level inp (fst x))"
      using mk n_int by auto
    have op': "a \<in> fst ` set (marks (p_tokens p) @ [(n, int16_of_int (level inp n))])"
      if "a < Suc n" "a < length inp" "fst (scan inp a) = Outside"
         "inp ! a = CHR ''['' \<or> inp ! a = CHR ''{''" for a
    proof (cases "a = n")
      case True
      then show ?thesis by simp
    next
      case False
      with that op show ?thesis by simp
    qed
    from js pos0 anc an mk' srt' sc' op' show ?thesis
      unfolding text_inv_def p' by (simp add: m n')
  next
    case (act ns' q)
    with ns have eq: "ns' = ns" by simp
    from action_other_marks [OF act(4) act(2) js len anc]
    have m: "marks (p_tokens q) = marks (p_tokens p)"
      and anc': "\<forall>t \<in> set (p_tokens q). anchored (length inp) t" by simp_all
    from act(6) js have js': "p_json q = mu_str_init 0 (length inp)" by (simp add: same_frame_def)
    have tail: "scan inp (Suc n) = (lex_of_state (p_state q), p_depth q) \<and>
        (\<forall>a < Suc n. a < length inp \<and> fst (scan inp a) = Outside \<and>
           (inp ! a = CHR ''['' \<or> inp ! a = CHR ''{'') \<longrightarrow>
           a \<in> fst ` set (marks (p_tokens p)))"
      if noerr: "p_error q = MU_JSON_ERR_NONE"
    proof -
      from action_other_text [OF act(4) act(2) noerr] eq
      consider "ns = Fa \<or> ns = Fo" "p_depth q = p_depth p - 1" "lex_of_state (p_state q) = Outside"
        | "ns = Pl \<or> ns = Pm \<or> ns = Pq \<or> ns = Ps" "p_depth q = p_depth p"
          "lex_of_state (p_state q) = Outside \<or> ns = Ps \<and> p_state q = p_state p"
        by auto
      then have st: "lex_of_state (p_state q) = l' \<and> p_depth q = p_depth p + d \<and> d \<noteq> 1 \<and> ns \<noteq> ERR"
      proof cases
        case 1
        with entry_ok_finish [OF entry 1(1)] show ?thesis
          by (auto simp: l'_def d_def ERR_def action_defs)
      next
        case 2
        with entry_ok_punct [OF entry 2(1)] show ?thesis
          by (auto simp: l'_def d_def ERR_def action_defs)
      qed
      with esc have "\<not> (p_state p = ES \<and> p_char_pos p = int (length inp))" by auto
      from lexstep [OF this] st have "scan inp (Suc n) = (lex_of_state (p_state q), p_depth q)"
        by simp
      moreover have "a \<in> fst ` set (marks (p_tokens p))"
        if "a < Suc n" "a < length inp" "fst (scan inp a) = Outside"
           "inp ! a = CHR ''['' \<or> inp ! a = CHR ''{''" for a
      proof (cases "a = n")
        case True
        with rise that st show ?thesis by simp
      next
        case False
        with that op show ?thesis by simp
      qed
      ultimately show ?thesis by blast
    qed
    from js' pos0 anc' mk srt tail show ?thesis
      unfolding text_inv_def act(5) by (auto simp: m n')
  qed
qed

lemma iteration_pos:
  assumes "iteration c p = Some p'"
  shows "p_char_pos p' = p_char_pos p + 1"
  using assms by (cases rule: iteration_cases) (auto simp: same_frame_def)

lemma parse_loop_text_inv:
  assumes "parse_loop inp p = Some q" "text_inv inp p" "p_char_pos p \<le> int (length inp)"
    and len: "int (length inp) < INT_MAX" and cls: "\<forall>ch \<in> set inp. classify_char ch \<noteq> ERR"
  shows "text_inv inp q"
  using assms(1-3) len cls
proof (induction inp p rule: parse_loop.induct)
  case (1 mem p)
  note run = "1.prems"(1) [unfolded parse_loop.simps [of mem p]]
  from "1.prems"(2) have js: "p_json p = mu_str_init 0 (length mem)" and pos0: "0 \<le> p_char_pos p"
    by (simp_all add: text_inv_def)
  show ?case
  proof (cases "p_error p = MU_JSON_ERR_NONE")
    case False
    with run "1.prems"(2) show ?thesis by simp
  next
    case noerr: True
    show ?thesis
    proof (cases "mu_str_get_byte mem (p_json p) (p_char_pos p)")
      case None
      with run noerr have it: "iteration C_SPACE p = Some q" by simp
      from None js pos0 "1.prems"(3) have e: "p_char_pos p = int (length mem)"
        by (simp add: mu_str_get_byte_def mu_str_init_def split: if_splits)
      show ?thesis
        by (rule text_inv_step [OF "1.prems"(2) noerr "1.prems"(4,3) _ _ _ _ it])
           (simp_all add: e C_SPACE_def)
    next
      case (Some ch)
      with run noerr obtain p' where it: "iteration (classify_char ch) p = Some p'"
        and rest: "parse_loop mem p' = Some q"
        by (auto simp: Let_def classify_char_nonneg split: Option.bind_splits)
      from Some js pos0 have lt: "p_char_pos p < int (length mem)"
        and ch: "ch = mem ! nat (p_char_pos p)"
        by (simp_all add: mu_str_get_byte_def mu_str_init_def split: if_splits)
      from lt pos0 have "ch \<in> set mem" by (simp add: ch)
      with "1.prems"(5) classify_char_range [of ch]
      have c: "0 \<le> classify_char ch" "classify_char ch \<le> 30" by (auto simp: ERR_def)
      have inv': "text_inv mem p'"
        by (rule text_inv_step [OF "1.prems"(2) noerr "1.prems"(4,3) c _ _ it])
           (use lt ch in simp_all)
      from iteration_pos [OF it] lt have "p_char_pos p' \<le> int (length mem)" by simp
      from "1.IH" [OF _ Some refl classify_char_nonneg it rest inv' this "1.prems"(4,5)] noerr
      show ?thesis by simp
    qed
  qed
qed

lemma text_inv_initial: "text_inv inp (initial k inp)"
  by (simp add: text_inv_def initial_def marks_def scan_def)

lemma endgame_marks:
  assumes e: "endgame q = Some (n, ts)" and js: "p_json q = mu_str_init 0 L"
    and len: "int L < INT_MAX" and anc: "\<forall>t \<in> set (p_tokens q). anchored L t"
  shows "marks ts = marks (p_tokens q)"
proof (cases "p_error q = MU_JSON_ERR_NONE \<and> p_depth q = 0 \<and> p_state q = OK")
  case False
  with e show ?thesis by (auto simp: endgame_def split: if_splits)
next
  case True
  show ?thesis
  proof (cases "tos q")
    case NULL
    with True e show ?thesis by (simp add: endgame_def token_count_def)
  next
    case (Ptr i)
    with True e obtain t root p2 where t: "deref (p_tokens q) (Ptr i) = Some t"
      and f: "finish_token (q\<lparr>p_tokens := (p_tokens q)[nat i := set_is_last t]\<rparr>) root False = Some p2"
      and ts: "ts = p_tokens p2"
      by (auto simp: endgame_def Let_def split: Option.bind_splits)
    from t have i: "nat i < length (p_tokens q)" and t_eq: "t = p_tokens q ! nat i"
      by (auto simp: deref.simps split: if_splits)
    let ?ts1 = "(p_tokens q)[nat i := set_is_last t]"
    have m1: "marks ?ts1 = marks (p_tokens q)"
      using i t_eq by (intro marks_update) (simp_all add: origin_def set_is_last_def)
    from anc i t_eq have "anchored L (set_is_last t)" by simp
    with anc have a1: "\<forall>t \<in> set ?ts1. anchored L t" by (rule anchored_update)
    from finish_token_marks [OF f _ len] js a1 m1 ts show ?thesis by simp
  qed
qed

lemma int16_of_int_id: "- 32768 \<le> x \<Longrightarrow> x \<le> 32767 \<Longrightarrow> int16_of_int x = x"
  by (simp add: int16_of_int_def)

text \<open>What this gives for the store of a successful parse.\<close>

lemma parse_text:
  assumes p: "parse k inp = Some (n, ts)" and n: "0 \<le> n"
    and cls: "\<forall>ch \<in> set inp. classify_char ch \<noteq> ERR"
  shows "\<forall>i < length ts. depth (ts ! i) = int16_of_int (level inp (origin (ts ! i)))"
    and "\<forall>i j. i < j \<and> j < length ts \<longrightarrow> origin (ts ! i) < origin (ts ! j)"
    and "\<forall>a e. e < length ts \<and> a < origin (ts ! e) \<and> level inp a < level inp (Suc a) \<longrightarrow>
           (\<exists>j < length ts. origin (ts ! j) = a)"
proof -
  from p obtain q where len: "int (length inp) < INT_MAX"
    and q: "parse_loop inp (initial k inp) = Some q" and e: "endgame q = Some (n, ts)"
    by (rule parse_Some)
  from parse_loop_inv [OF q loop_inv_initial] have linv: "loop_inv q" .
  from endgame_cases [OF linv e n] have ok: "p_error q = MU_JSON_ERR_NONE" by simp
  have "text_inv inp q"
    by (rule parse_loop_text_inv [OF q text_inv_initial _ len cls]) (simp add: initial_def)
  then have js: "p_json q = mu_str_init 0 (length inp)"
    and anc: "\<forall>t \<in> set (p_tokens q). anchored (length inp) t"
    and mk: "\<forall>x \<in> set (marks (p_tokens q)).
        int (fst x) < p_char_pos q \<and> snd x = int16_of_int (level inp (fst x))"
    and srt: "sorted_wrt (<) (map fst (marks (p_tokens q)))"
    and op: "\<forall>a < nat (p_char_pos q).
           a < length inp \<and> fst (scan inp a) = Outside \<and>
           (inp ! a = CHR ''['' \<or> inp ! a = CHR ''{'') \<longrightarrow>
           a \<in> fst ` set (marks (p_tokens q))"
    using ok by (simp_all add: text_inv_def)
  from endgame_marks [OF e js len anc] have m: "marks (p_tokens q) = marks ts" by simp
  have nth: "marks ts ! i = (origin (ts ! i), depth (ts ! i))" if "i < length ts" for i
    using that by (simp add: marks_def)
  have lenm: "length (marks ts) = length ts" by (simp add: marks_def)
  show "\<forall>i < length ts. depth (ts ! i) = int16_of_int (level inp (origin (ts ! i)))"
  proof (intro allI impI)
    fix i assume i: "i < length ts"
    then have "marks ts ! i \<in> set (marks ts)" by (simp add: lenm)
    with mk m nth [OF i] show "depth (ts ! i) = int16_of_int (level inp (origin (ts ! i)))"
      by auto
  qed
  show "\<forall>i j. i < j \<and> j < length ts \<longrightarrow> origin (ts ! i) < origin (ts ! j)"
  proof (intro allI impI)
    fix i j assume ij: "i < j \<and> j < length ts"
    with srt m sorted_wrt_nth_less [of "(<)" "map fst (marks ts)" i j]
    have "map fst (marks ts) ! i < map fst (marks ts) ! j"
      by (simp add: lenm)
    with ij nth show "origin (ts ! i) < origin (ts ! j)" by (simp add: lenm)
  qed
  show "\<forall>a e. e < length ts \<and> a < origin (ts ! e) \<and> level inp a < level inp (Suc a) \<longrightarrow>
           (\<exists>j < length ts. origin (ts ! j) = a)"
  proof (intro allI impI)
    fix a e assume h: "e < length ts \<and> a < origin (ts ! e) \<and> level inp a < level inp (Suc a)"
    then have "marks ts ! e \<in> set (marks ts)" by (simp add: lenm)
    with mk m nth [of e] h have "int (origin (ts ! e)) < p_char_pos q" by auto
    with h have "a < nat (p_char_pos q)" by linarith
    moreover from h level_Suc_rise [of inp a]
    have "a < length inp \<and> fst (scan inp a) = Outside \<and> (inp ! a = CHR ''['' \<or> inp ! a = CHR ''{'')"
      by simp
    ultimately have "a \<in> fst ` set (marks ts)" using op m by simp
    then obtain j where "j < length ts" "fst (marks ts ! j) = a"
      by (auto simp: in_set_conv_nth lenm)
    with nth show "\<exists>j < length ts. origin (ts ! j) = a" by auto
  qed
qed

subsection \<open>The parent scan while the loop runs\<close>

lemma prev_first:
  assumes "flags_inv ts" "in_store ts k"
  shows "mu_json_token_prev ts (Ptr k) = Some (if k = 0 then NULL else Ptr (k - 1))"
proof -
  from assms have "token_is_first (ts ! nat k) \<longleftrightarrow> k = 0"
    by (auto simp: flags_inv_def in_store_def)
  with assms(2) show ?thesis by (simp add: mu_json_token_prev_def)
qed

lemma parent_loop_defined:
  assumes "flags_inv ts" "in_store ts k"
  shows "\<exists>r. parent_loop ts d (Ptr k) = Some r \<and> (r = NULL \<or> (\<exists>j. r = Ptr j \<and> in_store ts j))"
  using assms(2)
proof (induction "nat k" arbitrary: k)
  case 0
  then have "k = 0" by (simp add: in_store_def)
  with 0 assms(1) show ?case
    by (subst parent_loop.simps) (simp add: prev_first)
next
  case (Suc n)
  then have k: "k \<noteq> 0" and n: "n = nat (k - 1)" by auto
  note prev = in_store_pred [OF Suc.prems k]
  show ?case
  proof (cases "d \<le> dep ts (k - 1)")
    case True
    from Suc.hyps(1) [OF n prev] obtain r where
      "parent_loop ts d (Ptr (k - 1)) = Some r" "r = NULL \<or> (\<exists>j. r = Ptr j \<and> in_store ts j)"
      by blast
    with True prev Suc.prems k assms(1) show ?thesis
      by (subst parent_loop.simps) (simp add: prev_first)
  next
    case False
    with prev Suc.prems k assms(1) show ?thesis
      by (subst parent_loop.simps) (simp add: prev_first)
  qed
qed

lemma parent_defined:
  assumes "flags_inv ts" "in_store ts k"
  shows "\<exists>r. mu_json_token_parent ts (Ptr k) = Some r \<and>
           (r = NULL \<or> (\<exists>j. r = Ptr j \<and> in_store ts j))"
  using parent_loop_defined [OF assms, of "dep ts k"] assms(2)
  by (simp add: mu_json_token_parent_def)

lemma finish_token_defined:
  assumes "t = NULL \<or> (\<exists>j. t = Ptr j \<and> in_store (p_tokens p) j)"
  shows "\<exists>q. finish_token p t b = Some q"
  using assms finish_token_total [of p _ b] by (auto simp: finish_token_def)

lemma finish_container_total:
  assumes fl: "flags_inv (p_tokens p)" and ne: "p_tokens p \<noteq> []"
  shows "\<exists>q. finish_container p ty = Some q"
proof -
  define k where "k = int (length (p_tokens p)) - 1"
  from ne have tos: "tos p = Ptr k" and k: "in_store (p_tokens p) k"
    by (simp_all add: tos_def token_count_def k_def in_store_def)
  have after: "\<exists>q. finish_token p' c True = Some q"
    if "mu_json_token_parent (p_tokens p') (Ptr k) = Some c" "map shape (p_tokens p') = map shape (p_tokens p)"
    for p' c
  proof -
    from that(2) fl have fl': "flags_inv (p_tokens p')" by (rule flags_inv_shape)
    from that(2) k have k': "in_store (p_tokens p') k"
      by (auto simp: in_store_def dest: map_eq_imp_length_eq)
    from parent_defined [OF fl' k'] that(1) show ?thesis
      by (auto intro: finish_token_defined)
  qed
  have par: "\<exists>c. mu_json_token_parent (p_tokens p') (Ptr k) = Some c"
    if "map shape (p_tokens p') = map shape (p_tokens p)" for p'
  proof -
    from that fl have fl': "flags_inv (p_tokens p')" by (rule flags_inv_shape)
    from that k have k': "in_store (p_tokens p') k"
      by (auto simp: in_store_def dest: map_eq_imp_length_eq)
    from parent_defined [OF fl' k'] show ?thesis by blast
  qed
  from k have ty: "mu_json_token_type (p_tokens p) (Ptr k) = Some (type (p_tokens p ! nat k))"
    by (simp add: mu_json_token_type_def)
  show ?thesis
  proof (cases "type (p_tokens p ! nat k) \<noteq> ty")
    case True
    from finish_token_total [OF k] obtain p' where p': "finish_token p (Ptr k) False = Some p'"
      by blast
    from finish_token_frame [OF p'] have sh: "map shape (p_tokens p') = map shape (p_tokens p)"
      by (simp add: same_frame_def)
    from par [OF sh] obtain c where c: "mu_json_token_parent (p_tokens p') (Ptr k) = Some c" by blast
    from after [OF c sh] obtain q where "finish_token p' c True = Some q" by blast
    with True p' c ty tos show ?thesis
      by (simp add: finish_container_def)
  next
    case False
    show ?thesis
    proof (cases "token_is_sealed (p_tokens p ! nat k)")
      case True
      from par [of p] obtain c where c: "mu_json_token_parent (p_tokens p) (Ptr k) = Some c" by auto
      from after [OF c] obtain q where "finish_token p c True = Some q" by auto
      with True False c ty tos k show ?thesis
        by (simp add: finish_container_def)
    next
      case unsealed: False
      from finish_token_total [OF k] obtain q where "finish_token p (Ptr k) True = Some q"
        by blast
      with unsealed False ty tos k show ?thesis
        by (simp add: finish_container_def)
    qed
  qed
qed

lemma in_store_nth: "in_store ts k \<Longrightarrow> ts ! nat k \<in> set ts"
  by (auto simp: in_store_def intro!: nth_mem)

lemma select_state_array:
  assumes fl: "flags_inv ts" and k: "in_store ts k"
    and ar: "\<forall>s \<in> set (map shape ts). fst s = MU_JSON_TOKEN_TYPE_ARRAY"
  shows "select_state ts (Ptr k) a b c d = Some a \<or> select_state ts (Ptr k) a b c d = Some b"
proof -
  from parent_defined [OF fl k] obtain r where
    r: "mu_json_token_parent ts (Ptr k) = Some r" "r = NULL \<or> (\<exists>j. r = Ptr j \<and> in_store ts j)"
    by blast
  show ?thesis
  proof (cases r)
    case NULL
    with r(1) show ?thesis by (simp add: select_state_def)
  next
    case (Ptr j)
    with r(2) have j: "in_store ts j" by simp
    then have "ts ! nat j \<in> set ts" by (rule in_store_nth)
    with ar have "type (ts ! nat j) = MU_JSON_TOKEN_TYPE_ARRAY" by (auto simp: shape_def)
    with r(1) Ptr j show ?thesis by (simp add: select_state_def)
  qed
qed

subsection \<open>The run on nested arrays\<close>

lemma nest_nth:
  "i < n \<Longrightarrow> nest n ! i = CHR ''[''"
  "n \<le> i \<Longrightarrow> i < 2 * n \<Longrightarrow> nest n ! i = CHR '']''"
  by (simp_all add: nest_def nth_append)

lemma nest_length [simp]: "length (nest n) = 2 * n"
  by (simp add: nest_def)

lemma nest_classes: "\<forall>ch \<in> set (nest n). classify_char ch \<noteq> ERR"
proof -
  have "classify_char CHR ''['' \<noteq> ERR" "classify_char CHR '']'' \<noteq> ERR" by code_simp+
  then show ?thesis by (auto simp: nest_def)
qed

lemma bracket_classes:
  "classify_char CHR ''['' = C_LSQRB" "classify_char CHR '']'' = C_RSQRB"
  by code_simp+

lemma bracket_cells:
  "lookup_state GO C_LSQRB = Some Ba" "lookup_state AR C_LSQRB = Some Ba"
  "lookup_state AR C_RSQRB = Some Fa" "lookup_state OK C_RSQRB = Some Fa"
  "lookup_state OK C_SPACE = Some Ps"
  by code_simp+

lemma scan_nest_open: "m \<le> n \<Longrightarrow> scan (nest n) m = (Outside, int m)"
proof (induction m)
  case 0
  show ?case by (simp add: scan_def)
next
  case (Suc m)
  then show ?case by (simp add: scan_Suc nest_nth)
qed

lemma nesting_open:
  assumes nst: "nesting n p" and lt: "p_char_pos p < int n" and len: "2 * int n < INT_MAX"
  shows "\<exists>p'. iteration C_LSQRB p = Some p' \<and> nesting n p'"
proof -
  from nst have ok: "p_error p = MU_JSON_ERR_NONE" and linv: "loop_inv p"
    and tinv: "text_inv (nest n) p" and mx: "p_max_tokens p = n"
    and mk: "map fst (marks (p_tokens p)) = [0..<length (p_tokens p)]"
    and ar: "\<forall>s \<in> set (map shape (p_tokens p)). fst s = MU_JSON_TOKEN_TYPE_ARRAY"
    by (simp_all add: nesting_def)
  from nst lt have dp: "p_depth p = p_char_pos p" and ln: "int (length (p_tokens p)) = p_char_pos p"
    and st: "p_state p = GO \<or> p_state p = AR"
    by (auto simp: nesting_def split: if_splits)
  from tinv have js: "p_json p = mu_str_init 0 (2 * n)" and pos0: "0 \<le> p_char_pos p"
    by (simp_all add: text_inv_def)
  define p' where "p' = p\<lparr>p_tokens := p_tokens p @ [new_token p MU_JSON_TOKEN_TYPE_ARRAY],
      p_state := AR, p_depth := p_depth p + 1, p_char_pos := p_char_pos p + 1\<rparr>"
  from st bracket_cells have lk: "lookup_state (p_state p) C_LSQRB = Some Ba" by auto
  from ln lt mx have room: "length (p_tokens p) < p_max_tokens p" by simp
  with lk have it: "iteration C_LSQRB p = Some p'"
    by (simp add: iteration_def action_def std_alloc_effect Let_def action_defs NR_STATES_def
                  p'_def)
  have c: "0 \<le> C_LSQRB" "C_LSQRB \<le> 30" by (simp_all add: class_defs)
  from lt pos0 have "nest n ! nat (p_char_pos p) = CHR ''[''" by (simp add: nest_nth)
  then have tinv': "text_inv (nest n) p'"
    using lt len
    by (intro text_inv_step [OF tinv ok _ _ c _ _ it]) (simp_all add: bracket_classes)
  have linv': "loop_inv p'"
    by (rule iteration_loop_inv [OF linv _ it]) (simp add: class_defs)
  from pos0 lt len have "origin (new_token p MU_JSON_TOKEN_TYPE_ARRAY) = nat (p_char_pos p)"
    by (intro new_token_origin [OF js]) simp_all
  with ln have "origin (new_token p MU_JSON_TOKEN_TYPE_ARRAY) = length (p_tokens p)" by simp
  with mk have mk': "map fst (marks (p_tokens p')) = [0..<length (p_tokens p')]"
    by (simp add: p'_def marks_def)
  from ar have ar': "\<forall>s \<in> set (map shape (p_tokens p')). fst s = MU_JSON_TOKEN_TYPE_ARRAY"
    by (simp add: p'_def shape_def new_token_def)
  from ok linv' tinv' mx mk' ar' dp ln lt pos0 have "nesting n p'"
    by (simp add: nesting_def p'_def)
  with it show ?thesis by blast
qed

lemma nesting_close:
  assumes nst: "nesting n p" and ge: "int n \<le> p_char_pos p" and lt: "p_char_pos p < 2 * int n"
    and len: "2 * int n < INT_MAX"
  shows "\<exists>p'. iteration C_RSQRB p = Some p' \<and> nesting n p'"
proof -
  from nst have ok: "p_error p = MU_JSON_ERR_NONE" and linv: "loop_inv p"
    and tinv: "text_inv (nest n) p" and mx: "p_max_tokens p = n"
    and mk: "map fst (marks (p_tokens p)) = [0..<length (p_tokens p)]"
    and ar: "\<forall>s \<in> set (map shape (p_tokens p)). fst s = MU_JSON_TOKEN_TYPE_ARRAY"
    by (simp_all add: nesting_def)
  from ge lt have n0: "0 < n" by simp
  from nst ge n0 have dp: "p_depth p = 2 * int n - p_char_pos p" and ln: "length (p_tokens p) = n"
    and st: "p_state p = AR \<or> p_state p = OK"
    by (auto simp: nesting_def split: if_splits)
  from tinv have js: "p_json p = mu_str_init 0 (2 * n)" and pos0: "0 \<le> p_char_pos p"
    and anc: "\<forall>t \<in> set (p_tokens p). anchored (2 * n) t"
    by (simp_all add: text_inv_def)
  from n0 ln have ne: "p_tokens p \<noteq> []" by auto
  from linv have fl: "flags_inv (p_tokens p)" by (simp add: loop_inv_def)
  from finish_container_total [OF fl ne] obtain q where
    q: "finish_container p MU_JSON_TOKEN_TYPE_ARRAY = Some q" by blast
  from finish_container_effect [OF q] obtain ts' where
    q_eq: "q = p\<lparr>p_tokens := ts', p_depth := p_depth p - 1, p_state := OK\<rparr>"
    and sh: "map shape ts' = map shape (p_tokens p)" by blast
  from finish_container_marks [OF q js _ anc] len
  have m: "marks (p_tokens q) = marks (p_tokens p)" by simp
  from sh have ln': "length ts' = length (p_tokens p)" by (rule map_eq_imp_length_eq)
  define p' where "p' = q\<lparr>p_char_pos := p_char_pos p + 1\<rparr>"
  from st bracket_cells have lk: "lookup_state (p_state p) C_RSQRB = Some Fa" by auto
  with q have it: "iteration C_RSQRB p = Some p'"
    by (simp add: iteration_def action_def action_defs NR_STATES_def p'_def q_eq)
  have c: "0 \<le> C_RSQRB" "C_RSQRB \<le> 30" by (simp_all add: class_defs)
  from ge lt pos0 have "nest n ! nat (p_char_pos p) = CHR '']''" by (simp add: nest_nth)
  then have tinv': "text_inv (nest n) p'"
    using lt len
    by (intro text_inv_step [OF tinv ok _ _ c _ _ it]) (simp_all add: bracket_classes)
  have linv': "loop_inv p'"
    by (rule iteration_loop_inv [OF linv _ it]) (simp add: class_defs)
  from m mk ln' have mk': "map fst (marks (p_tokens p')) = [0..<length (p_tokens p')]"
    by (simp add: p'_def q_eq)
  from ar sh have ar': "\<forall>s \<in> set (map shape (p_tokens p')). fst s = MU_JSON_TOKEN_TYPE_ARRAY"
    by (simp add: p'_def q_eq)
  from ok linv' tinv' mx mk' ar' dp ln ln' lt ge have "nesting n p'"
    by (simp add: nesting_def p'_def q_eq)
  with it show ?thesis by blast
qed

lemma nesting_end:
  assumes nst: "nesting n p" and e: "p_char_pos p = 2 * int n" and n0: "0 < n"
    and len: "2 * int n < INT_MAX"
  shows "\<exists>q. iteration C_SPACE p = Some q \<and> p_error q = MU_JSON_ERR_NONE \<and> p_depth q = 0 \<and>
           p_state q = OK \<and> loop_inv q \<and> text_inv (nest n) q \<and>
           map fst (marks (p_tokens q)) = [0..<n]"
proof -
  from nst have ok: "p_error p = MU_JSON_ERR_NONE" and linv: "loop_inv p"
    and tinv: "text_inv (nest n) p"
    and mk: "map fst (marks (p_tokens p)) = [0..<length (p_tokens p)]"
    and ar: "\<forall>s \<in> set (map shape (p_tokens p)). fst s = MU_JSON_TOKEN_TYPE_ARRAY"
    by (simp_all add: nesting_def)
  from nst e n0 have dp: "p_depth p = 0" and ln: "length (p_tokens p) = n" and st: "p_state p = OK"
    by (auto simp: nesting_def split: if_splits)
  define k where "k = int n - 1"
  from ln n0 have tos: "tos p = Ptr k" and k: "in_store (p_tokens p) k"
    by (simp_all add: tos_def token_count_def k_def in_store_def)
  from k have "p_tokens p ! nat k \<in> set (p_tokens p)" by (rule in_store_nth)
  with ar have cont: "is_container (p_tokens p ! nat k)" by (auto simp: shape_def is_container_def)
  from linv have fl: "flags_inv (p_tokens p)" by (simp add: loop_inv_def)
  from select_state_array [OF fl k ar, of OK OK OK "p_state p"]
  have sel: "select_state (p_tokens p) (Ptr k) OK OK OK (p_state p) = Some OK" by simp
  define q where "q = p\<lparr>p_state := OK, p_char_pos := p_char_pos p + 1\<rparr>"
  from st bracket_cells have "lookup_state (p_state p) C_SPACE = Some Ps" by simp
  with tos k cont sel have it: "iteration C_SPACE p = Some q"
    by (simp add: iteration_def action_def action_defs NR_STATES_def q_def set_state_def)
  have c: "0 \<le> C_SPACE" "C_SPACE \<le> 30" by (simp_all add: class_defs)
  have tinv': "text_inv (nest n) q"
    using e len by (intro text_inv_step [OF tinv ok _ _ c _ _ it]) simp_all
  have linv': "loop_inv q"
    by (rule iteration_loop_inv [OF linv _ it]) (simp add: class_defs)
  from ok dp ln mk linv' tinv' it show ?thesis by (auto simp: q_def)
qed

lemma nesting_run:
  assumes "nesting n p" "0 < n" "2 * int n < INT_MAX"
  shows "\<exists>q. parse_loop (nest n) p = Some q \<and> p_error q = MU_JSON_ERR_NONE \<and> p_depth q = 0 \<and>
           p_state q = OK \<and> loop_inv q \<and> text_inv (nest n) q \<and>
           map fst (marks (p_tokens q)) = [0..<n]"
  using assms
proof (induction "nest n" p rule: parse_loop.induct)
  case (1 p)
  from "1.prems"(1) have ok: "p_error p = MU_JSON_ERR_NONE" and tinv: "text_inv (nest n) p"
    and le: "p_char_pos p \<le> 2 * int n"
    by (simp_all add: nesting_def)
  from tinv have js: "p_json p = mu_str_init 0 (2 * n)" and pos0: "0 \<le> p_char_pos p"
    by (simp_all add: text_inv_def)
  show ?case
  proof (cases "p_char_pos p = 2 * int n")
    case True
    with js have "mu_str_get_byte (nest n) (p_json p) (p_char_pos p) = None"
      by (simp add: mu_str_get_byte_def mu_str_init_def)
    with ok have "parse_loop (nest n) p = iteration C_SPACE p"
      by (subst parse_loop.simps) simp
    with nesting_end [OF "1.prems"(1) True "1.prems"(2,3)] show ?thesis by simp
  next
    case False
    with le have lt: "p_char_pos p < 2 * int n" by simp
    define ch where "ch = nest n ! nat (p_char_pos p)"
    from lt pos0 js have byte: "mu_str_get_byte (nest n) (p_json p) (p_char_pos p) = Some ch"
      by (simp add: mu_str_get_byte_def mu_str_init_def ch_def)
    have "\<exists>p'. iteration (classify_char ch) p = Some p' \<and> nesting n p'"
    proof (cases "p_char_pos p < int n")
      case True
      with pos0 have "ch = CHR ''[''" by (simp add: ch_def nest_nth)
      with nesting_open [OF "1.prems"(1) True "1.prems"(3)] show ?thesis
        by (simp add: bracket_classes)
    next
      case False
      with lt pos0 have "ch = CHR '']''" by (simp add: ch_def nest_nth)
      with nesting_close [OF "1.prems"(1) _ lt "1.prems"(3)] False show ?thesis
        by (simp add: bracket_classes)
    qed
    then obtain p' where it: "iteration (classify_char ch) p = Some p'" and nst': "nesting n p'"
      by blast
    from "1.hyps" [OF _ byte refl classify_char_nonneg it nst' "1.prems"(2,3)] ok
    obtain q where "parse_loop (nest n) p' = Some q" "p_error q = MU_JSON_ERR_NONE \<and> p_depth q = 0 \<and>
           p_state q = OK \<and> loop_inv q \<and> text_inv (nest n) q \<and>
           map fst (marks (p_tokens q)) = [0..<n]" by auto
    with byte it ok have "parse_loop (nest n) p = Some q \<and> p_error q = MU_JSON_ERR_NONE \<and> p_depth q = 0 \<and>
           p_state q = OK \<and> loop_inv q \<and> text_inv (nest n) q \<and>
           map fst (marks (p_tokens q)) = [0..<n]"
      by (subst parse_loop.simps) (simp add: Let_def classify_char_nonneg)
    then show ?thesis by blast
  qed
qed

lemma nesting_initial: "nesting n (initial n (nest n))"
  using loop_inv_initial [of n "nest n"] text_inv_initial [of "nest n" n]
  by (simp add: nesting_def) (simp add: initial_def marks_def)

lemma parse_nest:
  assumes n0: "0 < n" and len: "2 * int n < INT_MAX"
  shows "\<exists>ts. parse n (nest n) = Some (int n, ts) \<and> length ts = n \<and>
           (\<forall>i < n. origin (ts ! i) = i \<and> depth (ts ! i) = int16_of_int (int i))"
proof -
  from nesting_run [OF nesting_initial n0 len] obtain q where
    q: "parse_loop (nest n) (initial n (nest n)) = Some q"
    and ok: "p_error q = MU_JSON_ERR_NONE" "p_depth q = 0" "p_state q = OK"
    and linv: "loop_inv q" and tinv: "text_inv (nest n) q"
    and mk: "map fst (marks (p_tokens q)) = [0..<n]"
    by blast
  from mk have "length (map fst (marks (p_tokens q))) = n" by simp
  then have lnq: "length (p_tokens q) = n" by (simp add: marks_def)
  from endgame_success [OF linv ok] lnq obtain ts where
    e: "endgame q = Some (int n, ts)" and ln: "length ts = n" by auto
  from len have len': "int (length (nest n)) < INT_MAX" by simp
  from parse_eq [OF len', of n] q e have p: "parse n (nest n) = Some (int n, ts)" by simp
  from tinv have "p_json q = mu_str_init 0 (length (nest n))"
    "\<forall>t \<in> set (p_tokens q). anchored (length (nest n)) t"
    by (simp_all add: text_inv_def)
  from endgame_marks [OF e this(1) len' this(2)] mk have m: "map fst (marks ts) = [0..<n]" by simp
  have "origin (ts ! i) = i \<and> depth (ts ! i) = int16_of_int (int i)" if i: "i < n" for i
  proof -
    from i ln have "map fst (marks ts) ! i = origin (ts ! i)" by (simp add: marks_def)
    with m i have o: "origin (ts ! i) = i" by simp
    from parse_text(1) [OF p _ nest_classes] i ln o
    have "depth (ts ! i) = int16_of_int (level (nest n) i)" by simp
    with i o show ?thesis by (simp add: level_def scan_nest_open)
  qed
  with p ln show ?thesis by blast
qed

subsection \<open>Inputs of white space\<close>

lemma classify_space: "ch \<in> json_space \<Longrightarrow> classify_char ch = C_SPACE \<or> classify_char ch = C_WHITE"
  by (auto simp: json_space_def classify_char_def ascii_classes_def class_defs)

lemma lookup_GO_space: "lookup_state GO C_SPACE = Some GO" "lookup_state GO C_WHITE = Some GO"
  by (simp_all add: lookup_state_def state_transition_table_def class_defs state_defs)

lemma iteration_GO_space:
  assumes "p_state p = GO" "c = C_SPACE \<or> c = C_WHITE"
  shows "iteration c p = Some (p\<lparr>p_char_pos := p_char_pos p + 1\<rparr>)"
proof -
  from assms lookup_GO_space have "lookup_state (p_state p) c = Some GO" by auto
  from iteration_move [OF this] assms(1) show ?thesis by (simp add: state_defs)
qed

lemma parse_loop_spaces:
  assumes "p_state p = GO" "p_error p = MU_JSON_ERR_NONE"
    "p_json p = mu_str_init 0 (length inp)" "set inp \<subseteq> json_space"
  shows "\<exists>pos. parse_loop inp p = Some (p\<lparr>p_char_pos := pos\<rparr>)"
  using assms
proof (induction inp p rule: parse_loop.induct)
  case (1 mem p)
  show ?case
  proof (cases "mu_str_get_byte mem (p_json p) (p_char_pos p)")
    case None
    with "1.prems" iteration_GO_space [of p C_SPACE]
    have "parse_loop mem p = Some (p\<lparr>p_char_pos := p_char_pos p + 1\<rparr>)"
      by (subst parse_loop.simps) simp
    then show ?thesis by blast
  next
    case (Some ch)
    with "1.prems"(3) have "ch \<in> set mem"
      by (auto simp: mu_str_get_byte_def mu_str_init_def split: if_splits)
    with "1.prems"(4) have sp: "classify_char ch = C_SPACE \<or> classify_char ch = C_WHITE"
      by (auto dest: classify_space)
    from iteration_GO_space [OF "1.prems"(1) sp]
    have it: "iteration (classify_char ch) p = Some (p\<lparr>p_char_pos := p_char_pos p + 1\<rparr>)" .
    from "1.IH" [OF _ Some refl classify_char_nonneg it] "1.prems"
    obtain pos where "parse_loop mem (p\<lparr>p_char_pos := p_char_pos p + 1\<rparr>) =
        Some (p\<lparr>p_char_pos := pos\<rparr>)" by auto
    with Some it "1.prems"(2) have "parse_loop mem p = Some (p\<lparr>p_char_pos := pos\<rparr>)"
      by (subst parse_loop.simps) (simp add: Let_def classify_char_nonneg)
    then show ?thesis by blast
  qed
qed

subsection \<open>The code on some inputs\<close>

lemma parse_example: "parse 5 example_input = Some (5, example_store)"
  by code_simp

lemma parse_S1_9:
  \<open>map_option (\<lambda>(n, ts). (n, map (token_view S1) ts)) (parse 9 S1) =
   Some (9, [(MU_JSON_TOKEN_TYPE_OBJECT, 0, ''{"a":111, "b":[222, true], "c":{}}''),
     (MU_JSON_TOKEN_TYPE_STRING, 1, ''"a"''), (MU_JSON_TOKEN_TYPE_NUMBER, 1, ''111''),
     (MU_JSON_TOKEN_TYPE_STRING, 1, ''"b"''), (MU_JSON_TOKEN_TYPE_ARRAY, 1, ''[222, true]''),
     (MU_JSON_TOKEN_TYPE_NUMBER, 2, ''222''), (MU_JSON_TOKEN_TYPE_TRUE, 2, ''true''),
     (MU_JSON_TOKEN_TYPE_STRING, 1, ''"c"''), (MU_JSON_TOKEN_TYPE_OBJECT, 1, ''{}'')])\<close>
  by code_simp

lemma parse_unterminated:
  "parse 0 ''[1'' = Some (MU_JSON_ERR_NO_TOKENS, [])"
  "map_option fst (parse 1 ''[1'') = Some MU_JSON_ERR_NO_TOKENS"
  "map_option (\<lambda>(n, ts). (n, length ts)) (parse 2 ''[1'') = Some (MU_JSON_ERR_INCOMPLETE, 2)"
  by code_simp+

lemma parse_S1_3: "map_option fst (parse 3 S1) = Some MU_JSON_ERR_NO_TOKENS"
  by code_simp

lemma parse_loop_empty_array: "parse_loop ''[]'' (initial 3 ''[]'') = Some empty_array_final"
  by code_simp

lemma parse_S6:
  \<open>map_option (\<lambda>(n, ts). (n, length ts)) (parse 3 ''{"a":1'') = Some (MU_JSON_ERR_INCOMPLETE, 3)\<close>
  and parse_open_string:
  \<open>map_option (\<lambda>(n, ts). (n, length ts)) (parse 1 ''"abc'') = Some (MU_JSON_ERR_BAD_FORMAT, 1)\<close>
  by code_simp+

lemma parse_control_input:
  "map_option (\<lambda>(n, ts). (n, map (\<lambda>t. (type t, origin t, depth t, level control_input (origin t))) ts))
      (parse 4 control_input) =
   Some (4, [(MU_JSON_TOKEN_TYPE_ARRAY, 0, 0, 0), (MU_JSON_TOKEN_TYPE_STRING, 1, 1, 1),
             (MU_JSON_TOKEN_TYPE_ARRAY, 4, 1, 1), (MU_JSON_TOKEN_TYPE_NUMBER, 5, 2, 1)])"
  by code_simp

section \<open>Properties\<close>

subsection \<open>Sealing and slices\<close>

text \<open>
  C1. The claim: after every successful parse every token has \<open>IS_SEALED\<close> set and its slice is
  exactly the text of its value, without adjacent whitespace or delimiters. The code does not
  do this, and the theorem shows it on two inputs. Parsing \<open>[[[1]]]\<close> succeeds with four
  tokens; when the second \<open>]\<close> arrives the most recent token is the number, whose parent (the
  innermost array) is already sealed, so the middle array is never sealed and keeps the slice
  \<open>[[1]]]\<close> that runs to the end of the input. Parsing \<open>[0 ]\<close> succeeds with two tokens; the
  table moves from state \<open>ZE\<close> to \<open>OK\<close> on the space without the action \<open>Ps\<close> that state
  \<open>IN\<close> has, so the number is sealed only at the \<open>]\<close> and its slice is \<open>0\<close> followed by the
  space.
\<close>

theorem unsealed_token:
  \<open>map_option (\<lambda>(n, ts). (n, map (\<lambda>t. (token_is_sealed t, token_view ''[[[1]]]'' t)) ts))
      (parse 4 ''[[[1]]]'') =
   Some (4, [(True, MU_JSON_TOKEN_TYPE_ARRAY, 0, ''[[[1]]]''),
             (False, MU_JSON_TOKEN_TYPE_ARRAY, 1, ''[[1]]]''),
             (True, MU_JSON_TOKEN_TYPE_ARRAY, 2, ''[1]''),
             (True, MU_JSON_TOKEN_TYPE_NUMBER, 3, ''1'')]) \<and>
   map_option (\<lambda>(n, ts). (n, map (\<lambda>t. (token_is_sealed t, token_view ''[0 ]'' t)) ts))
      (parse 2 ''[0 ]'') =
   Some (2, [(True, MU_JSON_TOKEN_TYPE_ARRAY, 0, ''[0 ]''),
             (True, MU_JSON_TOKEN_TYPE_NUMBER, 1, ''0 '')])\<close>
  by code_simp

subsection \<open>The example of the README\<close>

text \<open>
  C2. Parsing the input \<open>S1\<close> with a capacity of at least 9 tokens returns 9, and the kinds,
  depths and slices of the nine tokens are those the README prints.
\<close>

theorem S1_tokens:
  assumes "9 \<le> k"
  shows \<open>map_option (\<lambda>(n, ts). (n, map (token_view S1) ts)) (parse k S1) =
   Some (9, [(MU_JSON_TOKEN_TYPE_OBJECT, 0, ''{"a":111, "b":[222, true], "c":{}}''),
     (MU_JSON_TOKEN_TYPE_STRING, 1, ''"a"''), (MU_JSON_TOKEN_TYPE_NUMBER, 1, ''111''),
     (MU_JSON_TOKEN_TYPE_STRING, 1, ''"b"''), (MU_JSON_TOKEN_TYPE_ARRAY, 1, ''[222, true]''),
     (MU_JSON_TOKEN_TYPE_NUMBER, 2, ''222''), (MU_JSON_TOKEN_TYPE_TRUE, 2, ''true''),
     (MU_JSON_TOKEN_TYPE_STRING, 1, ''"c"''), (MU_JSON_TOKEN_TYPE_OBJECT, 1, ''{}'')])\<close>
proof -
  from parse_S1_9 obtain ts where ts: "parse 9 S1 = Some (9, ts)" by auto
  from parse_success [OF ts] have "length ts = 9" by simp
  with parse_capacity [OF ts, of k] assms have "parse k S1 = parse 9 S1"
    by (simp add: ts err_defs)
  with parse_S1_9 show ?thesis by simp
qed

theorem S1_tokens_witness:
  \<open>map_option (\<lambda>(n, ts). (n, map (token_view S1) ts)) (parse 9 S1) =
   Some (9, [(MU_JSON_TOKEN_TYPE_OBJECT, 0, ''{"a":111, "b":[222, true], "c":{}}''),
     (MU_JSON_TOKEN_TYPE_STRING, 1, ''"a"''), (MU_JSON_TOKEN_TYPE_NUMBER, 1, ''111''),
     (MU_JSON_TOKEN_TYPE_STRING, 1, ''"b"''), (MU_JSON_TOKEN_TYPE_ARRAY, 1, ''[222, true]''),
     (MU_JSON_TOKEN_TYPE_NUMBER, 2, ''222''), (MU_JSON_TOKEN_TYPE_TRUE, 2, ''true''),
     (MU_JSON_TOKEN_TYPE_STRING, 1, ''"c"''), (MU_JSON_TOKEN_TYPE_OBJECT, 1, ''{}'')])\<close>
  using S1_tokens [of 9] by simp

subsection \<open>Preorder containment\<close>

text \<open>
  C3. The claim: in the store of a successful parse every descendant of a container \<open>C\<close>
  lies at a greater index and has a greater depth than \<open>C\<close>, and the first record after \<open>C\<close>
  that is not a descendant of \<open>C\<close> has a depth of at most the depth of \<open>C\<close>. The descendants
  of a token are taken from the input text: the tokens whose first byte lies inside it
  (\<open>descendant\<close>). As the claim stands the code does not satisfy it. \<open>begin_token\<close> stores the
  depth of the parser, an \<open>int\<close>, in the field \<open>depth\<close> of the token, an \<open>int16_t\<close>. Parsing 32769
  arrays nested in one another succeeds with 32769 tokens; the innermost array, which lies
  inside the array before it, gets the depth \<open>- 32768\<close>, below the 32767 of that array.
\<close>

theorem deep_nesting:
  "(case parse 32769 (nest 32769) of None \<Rightarrow> False
    | Some (n, ts) \<Rightarrow>
        n = 32769 \<and> descendant (nest 32769) ts 32767 32768 \<and>
        depth (ts ! 32767) = 32767 \<and> depth (ts ! 32768) = - 32768)"
proof -
  have "0 < (32769 :: nat)" "2 * int 32769 < INT_MAX" by (simp_all add: INT_MAX_def)
  from parse_nest [OF this] obtain ts where
    p: "parse 32769 (nest 32769) = Some (32769, ts)"
    and at: "\<forall>i < 32769. origin (ts ! i) = i \<and> depth (ts ! i) = int16_of_int (int i)"
    by auto
  from at have o: "origin (ts ! 32767) = 32767" "origin (ts ! 32768) = 32768"
    and d: "depth (ts ! 32767) = int16_of_int 32767" "depth (ts ! 32768) = int16_of_int 32768"
    by simp_all
  have "level (nest 32769) 32767 = 32767" "level (nest 32769) (Suc 32767) = 32768"
    by (simp_all add: level_def scan_nest_open)
  then have "inside (nest 32769) 32767 (Suc 32767)" by (simp only: inside_next)
  then have "descendant (nest 32769) ts 32767 32768" by (simp add: descendant_def o)
  with p d show ?thesis by (simp add: int16_of_int_def)
qed

text \<open>
  C3, as the code has it. Let a parse succeed on an input in which every byte has a
  character class (no control byte that \<open>ascii_classes\<close> marks \<open>__\<close>), and let no token begin
  more than 32767 containers deep (or more than 32768 below the start), so that its depth
  fits the \<open>int16_t\<close>. Then for every token \<open>c\<close> of the store, in particular every container:
  every token that begins inside \<open>c\<close> has a greater index and a greater depth than \<open>c\<close>; and
  the first token after \<open>c\<close> that does not begin inside \<open>c\<close> has a depth of at most the depth
  of \<open>c\<close>. For a byte without a class the loop reads the table in the row of another state
  (\<open>classify_char\<close> returns 255, which is not \<open>< 0\<close>); what the store is then is shown on
  \<open>control_input\<close> in \<open>parse_control_input\<close> and is not part of this statement.
\<close>

theorem preorder_containment:
  assumes "parse k inp = Some (n, ts)" "0 \<le> n"
    and "\<forall>ch \<in> set inp. classify_char ch \<noteq> ERR"
    and "\<forall>t \<in> set ts. - 32768 \<le> level inp (origin t) \<and> level inp (origin t) \<le> 32767"
  shows "(\<forall>c < length ts. \<forall>d < length ts.
            descendant inp ts c d \<longrightarrow> c < d \<and> depth (ts ! c) < depth (ts ! d)) \<and>
         (\<forall>c e. c < e \<and> e < length ts \<and> \<not> descendant inp ts c e \<and>
                 (\<forall>j. c < j \<and> j < e \<longrightarrow> descendant inp ts c j) \<longrightarrow>
                 depth (ts ! e) \<le> depth (ts ! c))"
proof -
  note store = parse_text [OF assms(1-3)]
  have dep: "depth (ts ! i) = level inp (origin (ts ! i))" if "i < length ts" for i
  proof -
    from that have "ts ! i \<in> set ts" by simp
    with assms(4) have "- 32768 \<le> level inp (origin (ts ! i))" "level inp (origin (ts ! i)) \<le> 32767"
      by auto
    from int16_of_int_id [OF this] store(1) that show ?thesis by simp
  qed
  have ord: "i < j" if "origin (ts ! i) < origin (ts ! j)" "i < length ts" "j < length ts" for i j
  proof (rule ccontr)
    assume "\<not> i < j"
    then have "j = i \<or> j < i" by auto
    with store(2) that show False by (auto dest: less_asym)
  qed
  have one: "c < d \<and> depth (ts ! c) < depth (ts ! d)"
    if "c < length ts" "d < length ts" "descendant inp ts c d" for c d
  proof -
    from that(3) have lt: "origin (ts ! c) < origin (ts ! d)"
      and lv: "level inp (origin (ts ! c)) < level inp (origin (ts ! d))"
      by (auto simp: descendant_def inside_def)
    from ord [OF lt that(1,2)] lv dep that(1,2) show ?thesis by simp
  qed
  have two: "depth (ts ! e) \<le> depth (ts ! c)"
    if ce: "c < e" "e < length ts" and nd: "\<not> descendant inp ts c e"
      and between: "\<forall>j. c < j \<and> j < e \<longrightarrow> descendant inp ts c j" for c e
  proof -
    let ?a = "origin (ts ! c)" and ?b = "origin (ts ! e)"
    from ce store(2) have ab: "?a < ?b" by simp
    with nd obtain m where m: "?a < m" "m \<le> ?b" "level inp m \<le> level inp ?a"
      by (auto simp: descendant_def inside_def not_less)
    have "level inp m' \<le> level inp ?a" if "m \<le> m'" "m' \<le> ?b" for m'
      using that
    proof (induction m' rule: dec_induct)
      case base
      from m(3) show ?case .
    next
      case (step m')
      then have ih: "level inp m' \<le> level inp ?a" by simp
      show ?case
      proof (rule ccontr)
        assume "\<not> level inp (Suc m') \<le> level inp ?a"
        with ih have rise: "level inp m' < level inp (Suc m')" by simp
        from step.prems have "m' < ?b" by simp
        with store(3) ce(2) rise obtain j where j: "j < length ts" "origin (ts ! j) = m'" by blast
        from m(1) step.hyps(1) j(2) have "?a < origin (ts ! j)" by simp
        from ord [OF this _ j(1)] ce have cj: "c < j" by simp
        from \<open>m' < ?b\<close> j(2) have "origin (ts ! j) < ?b" by simp
        from ord [OF this j(1) ce(2)] have "j < e" .
        with cj between have "descendant inp ts c j" by simp
        with j(2) have "level inp ?a < level inp m'"
          by (auto simp: descendant_def inside_def)
        with ih show False by simp
      qed
    qed
    from this [of ?b] m(2) have "level inp ?b \<le> level inp ?a" by simp
    with dep ce show ?thesis by simp
  qed
  from one two show ?thesis by blast
qed

theorem preorder_containment_witness:
  "descendant example_input example_store 2 3 \<and> (2 :: nat) < 3 \<and>
   depth (example_store ! 2) < depth (example_store ! 3) \<and>
   \<not> descendant example_input example_store 2 4 \<and>
   depth (example_store ! 4) \<le> depth (example_store ! 2)"
proof -
  have cls: "\<forall>ch \<in> set example_input. classify_char ch \<noteq> ERR" by code_simp
  have rng: "\<forall>t \<in> set example_store.
      - 32768 \<le> level example_input (origin t) \<and> level example_input (origin t) \<le> 32767"
    by code_simp
  have d: "descendant example_input example_store 2 3" by code_simp
  have nd: "\<not> descendant example_input example_store 2 4" by code_simp
  have ln: "length example_store = 5" by (simp add: example_store_def)
  have "0 \<le> (5 :: int)" by simp
  note both = preorder_containment [OF parse_example this cls rng]
  from both have one: "\<forall>c < length example_store. \<forall>d < length example_store.
      descendant example_input example_store c d \<longrightarrow>
      c < d \<and> depth (example_store ! c) < depth (example_store ! d)"
    and two: "\<forall>c e. c < e \<and> e < length example_store \<and>
      \<not> descendant example_input example_store c e \<and>
      (\<forall>j. c < j \<and> j < e \<longrightarrow> descendant example_input example_store c j) \<longrightarrow>
      depth (example_store ! e) \<le> depth (example_store ! c)"
    by blast+
  from one ln have "descendant example_input example_store 2 3 \<longrightarrow>
      (2 :: nat) < 3 \<and> depth (example_store ! 2) < depth (example_store ! 3)"
    by simp
  moreover have "\<forall>j. (2 :: nat) < j \<and> j < 4 \<longrightarrow> j = 3" by auto
  with d have "\<forall>j. 2 < j \<and> j < 4 \<longrightarrow> descendant example_input example_store 2 j" by blast
  with two [rule_format, of 2 4] nd ln
  have "depth (example_store ! 4) \<le> depth (example_store ! 2)" by simp
  ultimately show ?thesis using d nd by simp
qed

subsection \<open>Keys and values of an object\<close>

text \<open>
  C4. The claim: in the store of a successful parse the children of an object alternate
  key, value, key, value, and every key is a string. The code does not ensure this. A comma
  is processed by \<open>select_state\<close> on the most recent token; after a nested container that
  token lies inside the nested container, so the enclosing object is not consulted. The
  theorem shows that parsing \<open>{"a":[1],3}\<close> succeeds with five tokens and that the children
  of the object are the string \<open>"a"\<close>, the array \<open>[1]\<close> and, in the place of the second
  key, the number \<open>3\<close>, which has no value after it.
\<close>

theorem object_key_not_string:
  \<open>(case parse 5 ''{"a":[1],3}'' of None \<Rightarrow> False
    | Some (n, ts) \<Rightarrow>
        n = 5 \<and>
        map (token_view ''{"a":[1],3}'') ts =
          [(MU_JSON_TOKEN_TYPE_OBJECT, 0, ''{"a":[1],3}''),
           (MU_JSON_TOKEN_TYPE_STRING, 1, ''"a"''),
           (MU_JSON_TOKEN_TYPE_ARRAY, 1, ''[1]''),
           (MU_JSON_TOKEN_TYPE_NUMBER, 2, ''1''),
           (MU_JSON_TOKEN_TYPE_NUMBER, 1, ''3'')] \<and>
        mu_json_token_child ts (Ptr 0) = Some (Ptr 1) \<and>
        mu_json_token_next_sibling ts (Ptr 1) = Some (Ptr 2) \<and>
        mu_json_token_next_sibling ts (Ptr 2) = Some (Ptr 4) \<and>
        mu_json_token_next_sibling ts (Ptr 4) = Some NULL \<and>
        mu_json_token_type ts (Ptr 4) = Some MU_JSON_TOKEN_TYPE_NUMBER)\<close>
  by code_simp

subsection \<open>The result at the end of the input\<close>

text \<open>
  C5. When the loop over the bytes of an input (of less than \<open>INT_MAX\<close> bytes) ends without
  an error, the result of \<open>parse\<close> is chosen
  in this order: \<open>INCOMPLETE\<close> if the depth is not zero, otherwise \<open>BAD_FORMAT\<close> if the state
  is not \<open>OK\<close>, otherwise the token count, which is not negative. The unterminated input
  \<open>{"a":1\<close> returns \<open>INCOMPLETE\<close> with every capacity that holds its three tokens, and the
  unterminated string \<open>"abc\<close> returns \<open>BAD_FORMAT\<close> with every capacity that holds its token.
\<close>

theorem end_of_input_result:
  \<open>(int (length inp) < INT_MAX \<and>
    parse_loop inp (initial k inp) = Some p \<and> p_error p = MU_JSON_ERR_NONE \<longrightarrow>
      map_option fst (parse k inp) =
        Some (if p_depth p \<noteq> 0 then MU_JSON_ERR_INCOMPLETE
              else if p_state p \<noteq> OK then MU_JSON_ERR_BAD_FORMAT
              else token_count p) \<and>
      0 \<le> token_count p) \<and>
   (3 \<le> k \<longrightarrow> map_option fst (parse k ''{"a":1'') = Some MU_JSON_ERR_INCOMPLETE) \<and>
   (1 \<le> k \<longrightarrow> map_option fst (parse k ''"abc'') = Some MU_JSON_ERR_BAD_FORMAT)\<close>
proof (intro conjI impI)
  assume "int (length inp) < INT_MAX \<and>
    parse_loop inp (initial k inp) = Some p \<and> p_error p = MU_JSON_ERR_NONE"
  then have len: "int (length inp) < INT_MAX"
    and q: "parse_loop inp (initial k inp) = Some p" and ok: "p_error p = MU_JSON_ERR_NONE"
    by simp_all
  from parse_loop_inv [OF q loop_inv_initial] have inv: "loop_inv p" .
  show "map_option fst (parse k inp) =
        Some (if p_depth p \<noteq> 0 then MU_JSON_ERR_INCOMPLETE
              else if p_state p \<noteq> OK then MU_JSON_ERR_BAD_FORMAT
              else token_count p)"
  proof (cases "p_depth p = 0 \<and> p_state p = OK")
    case True
    with endgame_success [OF inv ok] q show ?thesis
      by (auto simp: parse_eq [OF len] token_count_def)
  next
    case False
    with q ok show ?thesis
      by (auto simp: parse_eq [OF len] endgame_def token_count_def)
  qed
  show "0 \<le> token_count p" by (simp add: token_count_def)
next
  assume k: "3 \<le> k"
  from parse_S6 obtain ts where
    ts: \<open>parse 3 ''{"a":1'' = Some (MU_JSON_ERR_INCOMPLETE, ts)\<close> "length ts = 3" by auto
  from parse_capacity [OF ts(1), of k] ts(2) k
  show \<open>map_option fst (parse k ''{"a":1'') = Some MU_JSON_ERR_INCOMPLETE\<close>
    by (simp add: err_defs)
next
  assume k: "1 \<le> k"
  from parse_open_string obtain ts where
    ts: \<open>parse 1 ''"abc'' = Some (MU_JSON_ERR_BAD_FORMAT, ts)\<close> "length ts = 1" by auto
  from parse_capacity [OF ts(1), of k] ts(2) k
  show \<open>map_option fst (parse k ''"abc'') = Some MU_JSON_ERR_BAD_FORMAT\<close>
    by (simp add: err_defs)
qed

theorem end_of_input_result_witness:
  \<open>int (length ''[]'') < INT_MAX \<and>
   parse_loop ''[]'' (initial 3 ''[]'') = Some empty_array_final \<and>
   p_error empty_array_final = MU_JSON_ERR_NONE \<and>
   map_option fst (parse 3 ''[]'') = Some 1 \<and>
   map_option fst (parse 3 ''{"a":1'') = Some MU_JSON_ERR_INCOMPLETE \<and>
   map_option fst (parse 3 ''"abc'') = Some MU_JSON_ERR_BAD_FORMAT\<close>
proof -
  have fin: "p_error empty_array_final = MU_JSON_ERR_NONE" "p_depth empty_array_final = 0"
    "p_state empty_array_final = OK" "token_count empty_array_final = 1"
    by (simp_all add: empty_array_final_def token_count_def)
  have len: "int (length ''[]'') < INT_MAX" by (simp add: INT_MAX_def)
  from end_of_input_result [of "''[]''" 3 empty_array_final] parse_loop_empty_array fin len
  show ?thesis by simp
qed

subsection \<open>Capacity\<close>

text \<open>
  C6. The claim: for every input and every capacity \<open>k\<close>, \<open>parse\<close> returns \<open>NO_TOKENS\<close> if and
  only if a valid parse of the input would produce more than \<open>k\<close> tokens. It fails from left
  to right: the parser stops at the first error, so an input that is not valid returns
  \<open>NO_TOKENS\<close> when its tokens run out before the other error is found. With capacity 1 the
  input \<open>[1\<close> returns \<open>NO_TOKENS\<close>, and no capacity makes it parse.
\<close>

theorem no_tokens_counterexample:
  "map_option fst (parse 1 ''[1'') = Some MU_JSON_ERR_NO_TOKENS \<and>
   \<not> (\<exists>m n ts. parse m ''[1'' = Some (n, ts) \<and> 1 < n)"
proof
  show "map_option fst (parse 1 ''[1'') = Some MU_JSON_ERR_NO_TOKENS"
    by (rule parse_unterminated)
  show "\<not> (\<exists>m n ts. parse m ''[1'' = Some (n, ts) \<and> 1 < n)"
  proof (intro notI, elim exE conjE)
    fix m n ts assume p: "parse m ''[1'' = Some (n, ts)" and n: "1 < n"
    consider "m = 0" | "m = 1" | "2 \<le> m" by linarith
    then show False
    proof cases
      case 1
      with p n parse_unterminated(1) show False by (simp add: err_defs)
    next
      case 2
      with p n parse_unterminated(2) show False by (simp add: err_defs)
    next
      case 3
      from parse_unterminated(3) obtain ts2 where
        ts2: "parse 2 ''[1'' = Some (MU_JSON_ERR_INCOMPLETE, ts2)" "length ts2 = 2" by auto
      from parse_capacity [OF ts2(1), of m] ts2(2) 3 p n show False
        by (simp add: err_defs)
    qed
  qed
qed

text \<open>
  C6, as amended. If the input parses successfully into \<open>n\<close> tokens with some capacity, then
  for every capacity \<open>k\<close> parsing it returns \<open>NO_TOKENS\<close> if and only if \<open>k < n\<close>; and parsing
  \<open>S1\<close> with capacity 3 returns \<open>NO_TOKENS\<close>.
\<close>

theorem no_tokens_iff:
  assumes "parse m inp = Some (n, ts)" "0 \<le> n"
  shows "(map_option fst (parse k inp) = Some MU_JSON_ERR_NO_TOKENS \<longleftrightarrow> int k < n) \<and>
         map_option fst (parse 3 S1) = Some MU_JSON_ERR_NO_TOKENS"
proof (intro conjI iffI)
  assume "int k < n"
  from parse_out_of_tokens [OF assms this]
  show "map_option fst (parse k inp) = Some MU_JSON_ERR_NO_TOKENS" by auto
next
  assume no: "map_option fst (parse k inp) = Some MU_JSON_ERR_NO_TOKENS"
  show "int k < n"
  proof (rule ccontr)
    assume "\<not> int k < n"
    with parse_success [OF assms] have "length ts \<le> k" by simp
    from parse_capacity [OF assms(1) _ this] assms(2) have "parse k inp = Some (n, ts)"
      by (simp add: err_defs)
    with no assms(2) show False by (simp add: err_defs)
  qed
next
  show "map_option fst (parse 3 S1) = Some MU_JSON_ERR_NO_TOKENS" by (rule parse_S1_3)
qed

theorem no_tokens_iff_witness:
  "(map_option fst (parse 3 S1) = Some MU_JSON_ERR_NO_TOKENS \<longleftrightarrow> int 3 < 9) \<and>
   (map_option fst (parse 9 S1) = Some MU_JSON_ERR_NO_TOKENS \<longleftrightarrow> int 9 < 9)"
proof -
  from parse_S1_9 obtain ts where ts: "parse 9 S1 = Some (9, ts)" by auto
  from no_tokens_iff [OF ts, of 3] no_tokens_iff [OF ts, of 9] show ?thesis by simp
qed

subsection \<open>Navigation\<close>

text \<open>
  C7. In the store of a successful parse, for every token \<open>t\<close>: if
  \<open>mu_json_token_prev_sibling\<close> of \<open>t\<close> is a token, \<open>mu_json_token_next_sibling\<close> of that token
  is \<open>t\<close>; if \<open>mu_json_token_next_sibling\<close> of \<open>t\<close> is a token, \<open>mu_json_token_prev_sibling\<close>
  of that token is \<open>t\<close>; and if \<open>mu_json_token_child\<close> of \<open>t\<close> is a token,
  \<open>mu_json_token_parent\<close> of that token is \<open>t\<close>.
\<close>

theorem navigation_duality:
  assumes "parse k inp = Some (n, ts)" "0 \<le> n" "0 \<le> t" "t < n"
  shows "(\<forall>s. mu_json_token_prev_sibling ts (Ptr t) = Some (Ptr s) \<longrightarrow>
              mu_json_token_next_sibling ts (Ptr s) = Some (Ptr t)) \<and>
         (\<forall>s. mu_json_token_next_sibling ts (Ptr t) = Some (Ptr s) \<longrightarrow>
              mu_json_token_prev_sibling ts (Ptr s) = Some (Ptr t)) \<and>
         (\<forall>c. mu_json_token_child ts (Ptr t) = Some (Ptr c) \<longrightarrow>
              mu_json_token_parent ts (Ptr c) = Some (Ptr t))"
proof -
  from parse_success [OF assms(1,2)] have wf: "wf_store ts" and n: "n = int (length ts)" by auto
  from assms(3,4) n have t: "in_store ts t" by (simp add: in_store_def)
  have a: "mu_json_token_next_sibling ts (Ptr s) = Some (Ptr t)"
    if "mu_json_token_prev_sibling ts (Ptr t) = Some (Ptr s)" for s
  proof -
    from prev_sibling_in_store [OF wf t] that
    have sp: "prev_sibling_spec ts (dep ts t) (t - 1) (Ptr s)" by auto
    then have s: "0 \<le> s" "s < t" "dep ts s = dep ts t"
      and between: "\<forall>m. s < m \<and> m < t \<longrightarrow> dep ts t < dep ts m"
      by (auto simp: prev_sibling_spec_def)
    from s t have s_in: "in_store ts s" by (simp add: in_store_def)
    from s between t have "next_sibling_spec ts (dep ts s) (s + 1) (Ptr t)"
      by (auto simp: next_sibling_spec_def in_store_def)
    with next_sibling_in_store [OF wf s_in] show ?thesis
      by (auto dest: next_sibling_spec_unique)
  qed
  have b: "mu_json_token_prev_sibling ts (Ptr s) = Some (Ptr t)"
    if "mu_json_token_next_sibling ts (Ptr t) = Some (Ptr s)" for s
  proof -
    from next_sibling_in_store [OF wf t] that
    have sp: "next_sibling_spec ts (dep ts t) (t + 1) (Ptr s)" by auto
    then have s: "t < s" "s < int (length ts)" "dep ts s = dep ts t"
      and between: "\<forall>m. t < m \<and> m < s \<longrightarrow> dep ts t < dep ts m"
      by (auto simp: next_sibling_spec_def)
    from s t have s_in: "in_store ts s" by (simp add: in_store_def)
    from s between t have "prev_sibling_spec ts (dep ts s) (s - 1) (Ptr t)"
      by (auto simp: prev_sibling_spec_def in_store_def)
    with prev_sibling_in_store [OF wf s_in] show ?thesis
      by (auto dest: prev_sibling_spec_unique)
  qed
  have c: "mu_json_token_parent ts (Ptr c) = Some (Ptr t)"
    if "mu_json_token_child ts (Ptr t) = Some (Ptr c)" for c
  proof -
    from that child_in_store [OF wf t] have c: "c = t + 1" "t + 1 \<noteq> int (length ts)"
      "dep ts t < dep ts (t + 1)"
      by (auto split: if_splits)
    from in_store_succ [OF t c(2)] have c_in: "in_store ts (t + 1)" .
    from parent_in_store [OF wf c_in] obtain r where
      r: "mu_json_token_parent ts (Ptr (t + 1)) = Some r"
         "parent_spec ts (dep ts (t + 1)) (t + 1) r" by blast
    have "r = Ptr t"
    proof (cases r)
      case NULL
      with r(2) t c(3) show ?thesis by (auto simp: parent_spec_def in_store_def)
    next
      case (Ptr j)
      with r(2) have "j < t + 1" "\<forall>m. j < m \<and> m < t + 1 \<longrightarrow> dep ts (t + 1) \<le> dep ts m"
        by (auto simp: parent_spec_def)
      with c(3) have "j = t" by (cases "j < t") auto
      with Ptr show ?thesis by simp
    qed
    with r(1) c(1) show ?thesis by simp
  qed
  from a b c show ?thesis by blast
qed

theorem navigation_duality_witness:
  "mu_json_token_prev_sibling example_store (Ptr 2) = Some (Ptr 1) \<and>
   mu_json_token_next_sibling example_store (Ptr 1) = Some (Ptr 2) \<and>
   mu_json_token_next_sibling example_store (Ptr 2) = Some (Ptr 4) \<and>
   mu_json_token_prev_sibling example_store (Ptr 4) = Some (Ptr 2) \<and>
   mu_json_token_child example_store (Ptr 2) = Some (Ptr 3) \<and>
   mu_json_token_parent example_store (Ptr 3) = Some (Ptr 2)"
proof -
  have nav: "mu_json_token_prev_sibling example_store (Ptr 2) = Some (Ptr 1)"
    "mu_json_token_next_sibling example_store (Ptr 2) = Some (Ptr 4)"
    "mu_json_token_child example_store (Ptr 2) = Some (Ptr 3)"
    by code_simp+
  have "0 \<le> (5 :: int)" "0 \<le> (2 :: int)" "(2 :: int) < 5" by simp_all
  from navigation_duality [OF parse_example this] nav show ?thesis by simp
qed

text \<open>
  C8. In the store of a successful parse each of the seven navigation operations, applied
  to a token of the store, returns without undefined behaviour, and what it returns is the
  null pointer or a token of the store; applied to the null pointer, each of them returns
  the null pointer, whatever the store holds.
\<close>

theorem navigation_total:
  assumes "parse k inp = Some (n, ts)" "0 \<le> n" "0 \<le> t" "t < n"
  shows "(\<exists>r. mu_json_token_prev ts (Ptr t) = Some r \<and> valid_ptr n r) \<and>
         (\<exists>r. mu_json_token_next ts (Ptr t) = Some r \<and> valid_ptr n r) \<and>
         (\<exists>r. mu_json_token_root ts (Ptr t) = Some r \<and> valid_ptr n r) \<and>
         (\<exists>r. mu_json_token_parent ts (Ptr t) = Some r \<and> valid_ptr n r) \<and>
         (\<exists>r. mu_json_token_child ts (Ptr t) = Some r \<and> valid_ptr n r) \<and>
         (\<exists>r. mu_json_token_prev_sibling ts (Ptr t) = Some r \<and> valid_ptr n r) \<and>
         (\<exists>r. mu_json_token_next_sibling ts (Ptr t) = Some r \<and> valid_ptr n r) \<and>
         mu_json_token_prev ts' NULL = Some NULL \<and>
         mu_json_token_next ts' NULL = Some NULL \<and>
         mu_json_token_root ts' NULL = Some NULL \<and>
         mu_json_token_parent ts' NULL = Some NULL \<and>
         mu_json_token_child ts' NULL = Some NULL \<and>
         mu_json_token_prev_sibling ts' NULL = Some NULL \<and>
         mu_json_token_next_sibling ts' NULL = Some NULL"
proof -
  from parse_success [OF assms(1,2)] have wf: "wf_store ts" and n: "n = int (length ts)" by auto
  from assms(3,4) n have t: "in_store ts t" by (simp add: in_store_def)
  have "\<exists>r. mu_json_token_prev ts (Ptr t) = Some r \<and> valid_ptr n r"
    using t n by (auto simp: prev_in_store [OF wf t] valid_ptr_def in_store_def)
  moreover have "\<exists>r. mu_json_token_next ts (Ptr t) = Some r \<and> valid_ptr n r"
    using t n by (auto simp: next_in_store [OF wf t] valid_ptr_def in_store_def)
  moreover have "\<exists>r. mu_json_token_root ts (Ptr t) = Some r \<and> valid_ptr n r"
    using t n by (auto simp: root_in_store [OF wf t] valid_ptr_def in_store_def)
  moreover have "\<exists>r. mu_json_token_parent ts (Ptr t) = Some r \<and> valid_ptr n r"
  proof -
    from parent_in_store [OF wf t] obtain r where
      "mu_json_token_parent ts (Ptr t) = Some r" "parent_spec ts (dep ts t) t r" by blast
    with t n show ?thesis
      by (cases r) (auto simp: valid_ptr_def parent_spec_def in_store_def)
  qed
  moreover have "\<exists>r. mu_json_token_child ts (Ptr t) = Some r \<and> valid_ptr n r"
    using t n by (auto simp: child_in_store [OF wf t] valid_ptr_def in_store_def)
  moreover have "\<exists>r. mu_json_token_prev_sibling ts (Ptr t) = Some r \<and> valid_ptr n r"
  proof -
    from prev_sibling_in_store [OF wf t] obtain r where
      "mu_json_token_prev_sibling ts (Ptr t) = Some r"
      "prev_sibling_spec ts (dep ts t) (t - 1) r" by blast
    with t n show ?thesis
      by (cases r) (auto simp: valid_ptr_def prev_sibling_spec_def in_store_def)
  qed
  moreover have "\<exists>r. mu_json_token_next_sibling ts (Ptr t) = Some r \<and> valid_ptr n r"
  proof -
    from next_sibling_in_store [OF wf t] obtain r where
      "mu_json_token_next_sibling ts (Ptr t) = Some r"
      "next_sibling_spec ts (dep ts t) (t + 1) r" by blast
    with t n show ?thesis
      by (cases r) (auto simp: valid_ptr_def next_sibling_spec_def in_store_def)
  qed
  moreover have "mu_json_token_prev ts' NULL = Some NULL \<and>
         mu_json_token_next ts' NULL = Some NULL \<and>
         mu_json_token_root ts' NULL = Some NULL \<and>
         mu_json_token_parent ts' NULL = Some NULL \<and>
         mu_json_token_child ts' NULL = Some NULL \<and>
         mu_json_token_prev_sibling ts' NULL = Some NULL \<and>
         mu_json_token_next_sibling ts' NULL = Some NULL"
    by (simp add: mu_json_token_prev_def mu_json_token_next_def mu_json_token_root_def
          mu_json_token_parent_def mu_json_token_child_def mu_json_token_prev_sibling_def
          mu_json_token_next_sibling_def)
  ultimately show ?thesis by blast
qed

theorem navigation_total_witness:
  "mu_json_token_prev example_store (Ptr 2) = Some (Ptr 1) \<and> valid_ptr 5 (Ptr 1) \<and>
   mu_json_token_next example_store (Ptr 2) = Some (Ptr 3) \<and>
   mu_json_token_root example_store (Ptr 2) = Some (Ptr 0) \<and>
   mu_json_token_parent example_store (Ptr 2) = Some (Ptr 0) \<and>
   mu_json_token_child example_store (Ptr 2) = Some (Ptr 3) \<and>
   mu_json_token_prev_sibling example_store (Ptr 2) = Some (Ptr 1) \<and>
   mu_json_token_next_sibling example_store (Ptr 2) = Some (Ptr 4) \<and>
   (\<exists>r. mu_json_token_next_sibling example_store (Ptr 4) = Some r \<and> valid_ptr 5 r) \<and>
   mu_json_token_parent example_store NULL = Some NULL"
proof -
  have nav: "mu_json_token_prev example_store (Ptr 2) = Some (Ptr 1)"
    "mu_json_token_next example_store (Ptr 2) = Some (Ptr 3)"
    "mu_json_token_root example_store (Ptr 2) = Some (Ptr 0)"
    "mu_json_token_parent example_store (Ptr 2) = Some (Ptr 0)"
    "mu_json_token_child example_store (Ptr 2) = Some (Ptr 3)"
    "mu_json_token_prev_sibling example_store (Ptr 2) = Some (Ptr 1)"
    "mu_json_token_next_sibling example_store (Ptr 2) = Some (Ptr 4)"
    by code_simp+
  have "0 \<le> (5 :: int)" "0 \<le> (2 :: int)" "(2 :: int) < 5" by simp_all
  note at2 = navigation_total [OF parse_example this, of example_store]
  have "0 \<le> (5 :: int)" "0 \<le> (4 :: int)" "(4 :: int) < 5" by simp_all
  note at4 = navigation_total [OF parse_example this, of example_store]
  from at2 at4 nav show ?thesis by simp
qed

subsection \<open>The empty result\<close>

text \<open>
  C10. \<open>parse\<close> never returns 0, so a successful parse has at least one token; and an input
  (of less than \<open>INT_MAX\<close> bytes) that is empty or holds only spaces, tabs, line feeds and
  carriage returns returns \<open>BAD_FORMAT\<close>.
\<close>

theorem parse_never_zero:
  "(parse k inp = Some (n, ts) \<longrightarrow> n \<noteq> 0) \<and>
   (set ws \<subseteq> json_space \<and> int (length ws) < INT_MAX \<longrightarrow>
      parse k ws = Some (MU_JSON_ERR_BAD_FORMAT, []))"
proof
  show "parse k inp = Some (n, ts) \<longrightarrow> n \<noteq> 0"
  proof (intro impI notI)
    assume "parse k inp = Some (n, ts)" "n = 0"
    with parse_success [of k inp n ts] show False by auto
  qed
  show "set ws \<subseteq> json_space \<and> int (length ws) < INT_MAX \<longrightarrow>
      parse k ws = Some (MU_JSON_ERR_BAD_FORMAT, [])"
  proof
    assume "set ws \<subseteq> json_space \<and> int (length ws) < INT_MAX"
    then have sp: "set ws \<subseteq> json_space" and len: "int (length ws) < INT_MAX" by simp_all
    from sp parse_loop_spaces [of "initial k ws" ws] obtain pos where
      "parse_loop ws (initial k ws) = Some ((initial k ws)\<lparr>p_char_pos := pos\<rparr>)"
      by (auto simp: initial_def)
    then show "parse k ws = Some (MU_JSON_ERR_BAD_FORMAT, [])"
      by (simp add: parse_eq [OF len] endgame_def initial_def state_defs)
  qed
qed

theorem parse_never_zero_witness:
  "parse 5 example_input = Some (5, example_store) \<and> (5 :: int) \<noteq> 0 \<and>
   set [CHR 0x20, CHR 0x09, CHR 0x0A, CHR 0x0D] \<subseteq> json_space \<and>
   int (length [CHR 0x20, CHR 0x09, CHR 0x0A, CHR 0x0D]) < INT_MAX \<and>
   parse 5 [CHR 0x20, CHR 0x09, CHR 0x0A, CHR 0x0D] = Some (MU_JSON_ERR_BAD_FORMAT, []) \<and>
   parse 5 [] = Some (MU_JSON_ERR_BAD_FORMAT, [])"
proof -
  have sp: "set [CHR 0x20, CHR 0x09, CHR 0x0A, CHR 0x0D] \<subseteq> json_space"
    "int (length [CHR 0x20, CHR 0x09, CHR 0x0A, CHR 0x0D]) < INT_MAX"
    by (simp_all add: json_space_def INT_MAX_def)
  from parse_never_zero [of 5 example_input 5 example_store "[CHR 0x20, CHR 0x09, CHR 0x0A, CHR 0x0D]"]
    parse_never_zero [of 5 example_input 5 example_store "[]"] parse_example sp
  show ?thesis by (simp add: INT_MAX_def)
qed

subsection \<open>Accessors applied to the null pointer\<close>

text \<open>
  C9. Applied to the null pointer, \<open>mu_json_token_type\<close> returns
  \<open>MU_JSON_TOKEN_TYPE_UNKNOWN\<close>, \<open>mu_json_token_depth\<close> returns \<open>-1\<close>,
  \<open>mu_json_token_is_first\<close> and \<open>mu_json_token_is_last\<close> return false, and
  \<open>mu_json_token_slice\<close> returns the null pointer; none of them reads the store.
\<close>

theorem accessors_of_null:
  "mu_json_token_type ts NULL = Some MU_JSON_TOKEN_TYPE_UNKNOWN \<and>
   mu_json_token_depth ts NULL = Some (- 1) \<and>
   mu_json_token_is_first ts NULL = Some False \<and>
   mu_json_token_is_last ts NULL = Some False \<and>
   mu_json_token_slice ts NULL = Some None"
  by (simp add: mu_json_token_type_def mu_json_token_depth_def mu_json_token_is_first_def
        mu_json_token_is_last_def mu_json_token_slice_def)

end
